theory Spec2Isabelle
  imports Main "HOL-Library.Word"
begin

unbundle bit_operations_syntax

section \<open>Niimbot printer protocol (src/main/printer.cc, src/main/printer.h)\<close>

type_synonym u8 = "8 word"
type_synonym u16 = "16 word"

subsection \<open>Packet markers\<close>

definition kPacketStart1 :: u8 where "kPacketStart1 = 0x55"
definition kPacketStart2 :: u8 where "kPacketStart2 = 0x55"
definition kPacketEnd1 :: u8 where "kPacketEnd1 = 0xAA"
definition kPacketEnd2 :: u8 where "kPacketEnd2 = 0xAA"

subsection \<open>NiimbotPrinter::BuildPacket\<close>

text \<open>
  The output array \<open>buf\<close> is a list whose length is \<open>buf_size\<close>; every store
  \<open>buf[k] = v\<close> is a list update. The \<open>for\<close> loop copying the payload and folding
  the checksum is the recursion \<open>BuildPacket_loop\<close> on the loop index.
  \<open>static_cast<uint8_t>(data_len)\<close> is \<open>of_nat\<close> into an 8-bit word, which
  truncates modulo 256 as the cast does.
\<close>

function BuildPacket_loop :: "u8 list \<Rightarrow> u8 list \<Rightarrow> nat \<Rightarrow> u8 \<Rightarrow> u8 list \<times> u8" where
  "BuildPacket_loop buf data i checksum =
     (if i < length data
      then BuildPacket_loop (buf[4 + i := data ! i]) data (Suc i) (checksum XOR data ! i)
      else (buf, checksum))"
  by pat_completeness auto
termination
  by (relation "measure (\<lambda>(buf, data, i, checksum). length data - i)") auto

declare BuildPacket_loop.simps [simp del]

text \<open>Returns the value the C++ function returns together with the array after the call.\<close>

definition BuildPacket :: "u8 list \<Rightarrow> u8 \<Rightarrow> u8 list \<Rightarrow> nat \<times> u8 list" where
  "BuildPacket buf type data =
     (let buf_size = length buf; data_len = length data in
      if buf_size < data_len + 7 then (0, buf)
      else
        let buf0 = buf[0 := kPacketStart1];
            buf1 = buf0[1 := kPacketStart2];
            buf2 = buf1[2 := type];
            buf3 = buf2[3 := of_nat data_len];
            checksum0 = type XOR of_nat data_len;
            (buf4, checksum) = BuildPacket_loop buf3 data 0 checksum0;
            buf5 = buf4[4 + data_len := checksum];
            buf6 = buf5[5 + data_len := kPacketEnd1];
            buf7 = buf6[6 + data_len := kPacketEnd2]
        in (data_len + 7, buf7))"

text \<open>The bytes of the frame: the first \<open>n\<close> bytes of the array, \<open>n\<close> the returned length.\<close>

definition built_frame :: "u8 list \<Rightarrow> u8 \<Rightarrow> u8 list \<Rightarrow> u8 list" where
  "built_frame buf type data = (case BuildPacket buf type data of (n, buf') \<Rightarrow> take n buf')"

subsection \<open>NiimbotPrinter::ParsePacket\<close>

text \<open>
  The C++ function returns \<open>bool\<close>; each \<open>return false\<close> is one constructor of
  \<open>parse_error\<close>, in the order of the source, so the model keeps which check
  rejected the buffer. \<open>ParsePacket_ok\<close> is the \<open>bool\<close> the caller sees.
  The input is the list of the \<open>len\<close> bytes at \<open>buf\<close>.
\<close>

datatype parse_error = TooShort | BadStart | Incomplete | BadEnd | ChecksumMismatch

function ParsePacket_loop :: "u8 list \<Rightarrow> nat \<Rightarrow> nat \<Rightarrow> u8 list \<Rightarrow> u8 \<Rightarrow> u8 list \<times> u8" where
  "ParsePacket_loop buf pkt_data_len i data checksum =
     (if i < pkt_data_len
      then ParsePacket_loop buf pkt_data_len (Suc i)
             (data @ [buf ! (4 + i)]) (checksum XOR buf ! (4 + i))
      else (data, checksum))"
  by pat_completeness auto
termination
  by (relation "measure (\<lambda>(buf, pkt_data_len, i, data, checksum). pkt_data_len - i)") auto

declare ParsePacket_loop.simps [simp del]

definition ParsePacket :: "u8 list \<Rightarrow> parse_error + (u8 \<times> u8 list)" where
  "ParsePacket buf =
     (let len = length buf in
      if len < 7 then Inl TooShort
      else if buf ! 0 \<noteq> kPacketStart1 \<or> buf ! 1 \<noteq> kPacketStart2 then Inl BadStart
      else
        let type = buf ! 2;
            pkt_data_len = unat (buf ! 3)
        in
          if len < pkt_data_len + 7 then Inl Incomplete
          else if buf ! (5 + pkt_data_len) \<noteq> kPacketEnd1
                  \<or> buf ! (6 + pkt_data_len) \<noteq> kPacketEnd2 then Inl BadEnd
          else
            let (data, checksum) =
                  ParsePacket_loop buf pkt_data_len 0 [] (type XOR of_nat pkt_data_len)
            in if checksum \<noteq> buf ! (4 + pkt_data_len) then Inl ChecksumMismatch
               else Inr (type, data))"

definition ParsePacket_ok :: "u8 list \<Rightarrow> bool" where
  "ParsePacket_ok buf = (case ParsePacket buf of Inl e \<Rightarrow> False | Inr r \<Rightarrow> True)"

text \<open>The XOR fold of the wire format: type, length byte and every payload byte.\<close>

definition xor_fold :: "u8 \<Rightarrow> u8 list \<Rightarrow> u8" where
  "xor_fold type data = fold (\<lambda>b c. c XOR b) data (type XOR of_nat (length data))"

text \<open>
  The wire layout as the specification words it:
  \<open>[0x55][0x55][type][len][payload][checksum][0xAA][0xAA]\<close>.
\<close>

definition frame_bytes :: "u8 \<Rightarrow> u8 list \<Rightarrow> u8 list" where
  "frame_bytes type data =
     [0x55, 0x55, type, of_nat (length data)] @ data @ [xor_fold type data, 0xAA, 0xAA]"


subsection \<open>Printer object\<close>

text \<open>\<open>struct Status\<close> of printer.h; every field is a byte that starts at 0.\<close>

record Status =
  closing_state :: u8
  power_level :: u8
  paper_state :: u8
  rfid_read_state :: u8

definition Status_init :: Status where
  "Status_init = \<lparr>closing_state = 0, power_level = 0, paper_state = 0, rfid_read_state = 0\<rparr>"

text \<open>
  The members of \<open>class NiimbotPrinter\<close>.
  \<^item> \<open>packet_buf\<close> is the content of \<open>packet_buf_[0 .. packet_buf_len_)\<close>, so
    \<open>packet_buf_len_\<close> is its length; the array holds \<open>sizeof(packet_buf_) = 512\<close> bytes.
  \<^item> \<open>send_callback_set\<close> and \<open>ready_callback_set\<close> say whether the
    \<open>std::function\<close> members hold a target.
  \<^item> The last four fields record what the object does to its surroundings, which the C++
    object does not store: \<open>sent\<close> lists the calls of \<open>send_callback_\<close> (bytes and the
    \<open>wait_for_response\<close> flag), \<open>ready_fired\<close> counts the calls of
    \<open>ready_callback_\<close>, \<open>handled\<close> lists the calls of \<open>HandleResponse\<close> (type and
    payload, what its first log line prints), and \<open>skipped\<close> counts the one-byte discards
    of \<open>ProcessReceivedData\<close>.
\<close>

record NiimbotPrinter =
  send_callback_set :: bool
  ready_callback_set :: bool
  packet_buf :: "u8 list"
  status :: Status
  ready :: bool
  sent :: "(u8 list \<times> bool) list"
  ready_fired :: nat
  handled :: "(u8 \<times> u8 list) list"
  skipped :: nat

definition kPacketBufSize :: nat where "kPacketBufSize = 512"

text \<open>The object after its constructor: default member initialisers, no callback set.\<close>

definition NiimbotPrinter_init :: NiimbotPrinter where
  "NiimbotPrinter_init =
     \<lparr>send_callback_set = False, ready_callback_set = False, packet_buf = [],
      status = Status_init, ready = False, sent = [], ready_fired = 0, handled = [],
      skipped = 0\<rparr>"

definition SetSendCallback :: "NiimbotPrinter \<Rightarrow> NiimbotPrinter" where
  "SetSendCallback p = p\<lparr>send_callback_set := True\<rparr>"

definition SetReadyCallback :: "NiimbotPrinter \<Rightarrow> NiimbotPrinter" where
  "SetReadyCallback p = p\<lparr>ready_callback_set := True\<rparr>"

definition Reset :: "NiimbotPrinter \<Rightarrow> NiimbotPrinter" where
  "Reset p = p\<lparr>ready := False, packet_buf := [], status := Status_init\<rparr>"

definition IsReady :: "NiimbotPrinter \<Rightarrow> bool" where
  "IsReady p = ready p"

subsection \<open>NiimbotPrinter::HandleResponse\<close>

text \<open>
  \<open>data\<close> is the list of the \<open>data_len\<close> payload bytes. The \<open>switch\<close> on
  \<open>data_len\<close> is \<open>heartbeat_status\<close>, one branch per \<open>case\<close> in the order of the
  source; every index it reads is below the length of its case. The branches after the
  heartbeat only write to the log, so they return the object as it is.
\<close>

definition heartbeat_status :: "Status \<Rightarrow> u8 list \<Rightarrow> Status" where
  "heartbeat_status st data =
     (let data_len = length data in
      if data_len = 20 then
        st\<lparr>paper_state := data ! 18, rfid_read_state := data ! 19\<rparr>
      else if data_len = 13 then
        st\<lparr>closing_state := data ! 9, power_level := data ! 10,
           paper_state := data ! 11, rfid_read_state := data ! 12\<rparr>
      else if data_len = 19 then
        st\<lparr>closing_state := data ! 15, power_level := data ! 16,
           paper_state := data ! 17, rfid_read_state := data ! 18\<rparr>
      else if data_len = 10 then
        st\<lparr>closing_state := data ! 8, power_level := data ! 9\<rparr>
      else if data_len = 9 then
        st\<lparr>closing_state := data ! 8\<rparr>
      else st)"

definition HandleResponse :: "NiimbotPrinter \<Rightarrow> u8 \<Rightarrow> u8 list \<Rightarrow> NiimbotPrinter" where
  "HandleResponse p0 type data =
     (let data_len = length data;
          p = p0\<lparr>handled := handled p0 @ [(type, data)]\<rparr>
      in
        if type = 0xDB then p
        else if type = 0xDD \<and> data_len \<ge> 9 then
          let p1 = p\<lparr>status := heartbeat_status (status p) data\<rparr> in
          if \<not> ready p1 then
            let p2 = p1\<lparr>ready := True\<rparr> in
            if ready_callback_set p2 then p2\<lparr>ready_fired := Suc (ready_fired p2)\<rparr> else p2
          else p1
        else if type = 10 + 0x40 then p
        else if type = 8 + 0x40 then p
        else if type = 0xB3 \<and> data_len \<ge> 4 then p
        else if (type = 0x31 \<or> type = 0x33) \<and> data_len > 0 then p
        else if type = 0x02 \<and> data_len > 0 then p
        else if type = 0x04 \<and> data_len > 0 then p
        else if type = 0x14 \<and> data_len > 0 then p
        else if type = 0xE4 \<and> data_len > 0 then p
        else if type = 0xF4 \<and> data_len > 0 then p
        else p)"

subsection \<open>NiimbotPrinter::ProcessReceivedData\<close>

text \<open>
  The first part appends the delivered bytes. When \<open>packet_buf_len_ + len\<close> exceeds the
  array, the length is set to 0 and the \<open>memcpy\<close> still runs, so the delivered bytes
  become the new content. A \<open>memcpy\<close> that would write past the 512 bytes of the array
  has no defined behaviour in C++: the model returns \<open>None\<close> there.
\<close>

definition append_received :: "NiimbotPrinter \<Rightarrow> u8 list \<Rightarrow> NiimbotPrinter option" where
  "append_received p data =
     (let len = length data;
          p1 = (if length (packet_buf p) + len > kPacketBufSize
                then p\<lparr>packet_buf := []\<rparr> else p)
      in if length (packet_buf p1) + len > kPacketBufSize then None
         else Some (p1\<lparr>packet_buf := packet_buf p1 @ data\<rparr>))"

text \<open>The inner \<open>while\<close> that looks for the two start markers.\<close>

function find_start :: "u8 list \<Rightarrow> nat \<Rightarrow> nat" where
  "find_start buf start_idx =
     (if start_idx < length buf - 1 then
        (if buf ! start_idx = kPacketStart1 \<and> buf ! (start_idx + 1) = kPacketStart2
         then start_idx
         else find_start buf (start_idx + 1))
      else start_idx)"
  by pat_completeness auto
termination
  by (relation "measure (\<lambda>(buf, start_idx). length buf - start_idx)") auto

declare find_start.simps [simp del]

text \<open>
  One pass through the body of the outer \<open>while\<close>. The \<open>bool\<close> is \<open>False\<close> where
  the source leaves the loop with \<open>break\<close>, \<open>True\<close> where it goes round again.
  Each \<open>memmove\<close> to the front of the array is a \<open>drop\<close>.
\<close>

definition parse_step :: "NiimbotPrinter \<Rightarrow> bool \<times> NiimbotPrinter" where
  "parse_step p =
     (let start_idx = find_start (packet_buf p) 0;
          p1 = (if start_idx > 0 then p\<lparr>packet_buf := drop start_idx (packet_buf p)\<rparr> else p)
      in
        if length (packet_buf p1) < 7 then (False, p1)
        else
          case ParsePacket (packet_buf p1) of
            Inr (type, pkt_data) \<Rightarrow>
              let p2 = HandleResponse p1 type pkt_data;
                  pkt_total_len = length pkt_data + 7
              in (True, p2\<lparr>packet_buf := drop pkt_total_len (packet_buf p2)\<rparr>)
          | Inl e \<Rightarrow>
              if length (packet_buf p1) \<ge> 4 then
                let expected_len = unat (packet_buf p1 ! 3) + 7 in
                if length (packet_buf p1) < expected_len then (False, p1)
                else (True, p1\<lparr>packet_buf := drop 1 (packet_buf p1),
                                skipped := Suc (skipped p1)\<rparr>)
              else (False, p1))"

function parse_loop :: "NiimbotPrinter \<Rightarrow> NiimbotPrinter" where
  "parse_loop p =
     (if length (packet_buf p) \<ge> 7 then
        (case parse_step p of
           (True, p') \<Rightarrow> parse_loop p'
         | (False, p') \<Rightarrow> p')
      else p)"
  by pat_completeness auto
termination
proof (relation "measure (\<lambda>p. length (packet_buf p))")
  show "wf (measure (\<lambda>p. length (packet_buf p)))" by simp
next
  fix p :: NiimbotPrinter and x y
  assume len: "7 \<le> length (packet_buf p)" and r: "(x, y) = parse_step p" and b: "x = True"
  have hr: "\<And>q t d. packet_buf (HandleResponse q t d) = packet_buf q"
    by (simp add: HandleResponse_def Let_def)
  have "length (packet_buf y) < length (packet_buf p)"
    using len r b unfolding parse_step_def Let_def
    by (auto simp: hr split: if_splits sum.splits prod.splits)
  then show "(y, p) \<in> measure (\<lambda>p. length (packet_buf p))" by simp
qed

declare parse_loop.simps [simp del]

definition ProcessReceivedData :: "NiimbotPrinter \<Rightarrow> u8 list \<Rightarrow> NiimbotPrinter option" where
  "ProcessReceivedData p data = map_option parse_loop (append_received p data)"


subsection \<open>Sending commands\<close>

text \<open>The \<open>esp_err_t\<close> values the printer returns.\<close>

datatype esp_err_t = ESP_OK | ESP_ERR_INVALID_STATE | ESP_ERR_INVALID_SIZE | ESP_ERR_TIMEOUT

datatype RequestCode =
    GET_INFO | GET_RFID | HEARTBEAT | SET_LABEL_TYPE | SET_LABEL_DENSITY | START_PRINT
  | END_PRINT | START_PAGE_PRINT | END_PAGE_PRINT | ALLOW_PRINT_CLEAR | SET_DIMENSION
  | SET_QUANTITY | GET_PRINT_STATUS | PRINT_BITMAP_ROW_INDEXED | PRINT_EMPTY_ROW
  | PRINT_BITMAP_ROW

fun code_byte :: "RequestCode \<Rightarrow> u8" where
  "code_byte GET_INFO = 0x40"
| "code_byte GET_RFID = 0x1A"
| "code_byte HEARTBEAT = 0xDC"
| "code_byte SET_LABEL_TYPE = 0x23"
| "code_byte SET_LABEL_DENSITY = 0x21"
| "code_byte START_PRINT = 0x01"
| "code_byte END_PRINT = 0xF3"
| "code_byte START_PAGE_PRINT = 0x03"
| "code_byte END_PAGE_PRINT = 0xE3"
| "code_byte ALLOW_PRINT_CLEAR = 0x20"
| "code_byte SET_DIMENSION = 0x13"
| "code_byte SET_QUANTITY = 0x15"
| "code_byte GET_PRINT_STATUS = 0xA3"
| "code_byte PRINT_BITMAP_ROW_INDEXED = 0x83"
| "code_byte PRINT_EMPTY_ROW = 0x84"
| "code_byte PRINT_BITMAP_ROW = 0x85"

definition kPaperWidthDots :: u16 where "kPaperWidthDots = 384"
definition kPaperHeightDots :: u16 where "kPaperHeightDots = 240"

text \<open>\<open>sizeof(pkt)\<close> in \<open>SendPacket\<close>.\<close>

definition kSendBufSize :: nat where "kSendBufSize = 256"

text \<open>
  \<open>SendPacket\<close> builds the frame in a local array of 256 bytes and hands its first
  \<open>pkt_len\<close> bytes to \<open>send_callback_\<close>. The array is not initialised in the source;
  the model starts it with zeros, and only bytes that \<open>BuildPacket\<close> wrote are passed on.

  The wait on \<open>write_semaphore_\<close> depends on the other task. The parameter \<open>ack\<close>
  stands for it: \<open>ack n\<close> says that the wait after call number \<open>n\<close> of
  \<open>send_callback_\<close> (counted from 0 over the life of the object) ends without a
  timeout, which is also what happens when the semaphore was never created. The delays of
  \<open>vTaskDelay\<close> and the log lines have no counterpart in the model.
\<close>

definition SendPacket ::
  "(nat \<Rightarrow> bool) \<Rightarrow> NiimbotPrinter \<Rightarrow> RequestCode \<Rightarrow> u8 list \<Rightarrow> bool
     \<Rightarrow> esp_err_t \<times> NiimbotPrinter" where
  "SendPacket ack p code data wait_for_response =
     (if \<not> send_callback_set p then (ESP_ERR_INVALID_STATE, p)
      else
        let type = code_byte code;
            (pkt_len, pkt) = BuildPacket (replicate kSendBufSize 0) type data
        in
          if pkt_len = 0 then (ESP_ERR_INVALID_SIZE, p)
          else
            let p1 = p\<lparr>sent := sent p @ [(take pkt_len pkt, wait_for_response)]\<rparr> in
            if wait_for_response \<and> \<not> ack (length (sent p)) then (ESP_ERR_TIMEOUT, p1)
            else (ESP_OK, p1))"

text \<open>The high and the low byte of a 16-bit value, as the commands write them.\<close>

definition hi_byte :: "u16 \<Rightarrow> u8" where "hi_byte x = ucast (drop_bit 8 x)"
definition lo_byte :: "u16 \<Rightarrow> u8" where "lo_byte x = ucast (x AND 0xFF)"

definition SetLabelDensity ::
  "(nat \<Rightarrow> bool) \<Rightarrow> NiimbotPrinter \<Rightarrow> u8 \<Rightarrow> esp_err_t \<times> NiimbotPrinter" where
  "SetLabelDensity ack p density = SendPacket ack p SET_LABEL_DENSITY [density] True"

definition SetLabelType ::
  "(nat \<Rightarrow> bool) \<Rightarrow> NiimbotPrinter \<Rightarrow> u8 \<Rightarrow> esp_err_t \<times> NiimbotPrinter" where
  "SetLabelType ack p type = SendPacket ack p SET_LABEL_TYPE [type] True"

definition StartPrint ::
  "(nat \<Rightarrow> bool) \<Rightarrow> NiimbotPrinter \<Rightarrow> u16 \<Rightarrow> u8 \<Rightarrow> esp_err_t \<times> NiimbotPrinter" where
  "StartPrint ack p total_pages page_color =
     SendPacket ack p START_PRINT
       [hi_byte total_pages, lo_byte total_pages, 0x00, 0x00, 0x00, 0x00, page_color] True"

definition StartPagePrint :: "(nat \<Rightarrow> bool) \<Rightarrow> NiimbotPrinter \<Rightarrow> esp_err_t \<times> NiimbotPrinter" where
  "StartPagePrint ack p = SendPacket ack p START_PAGE_PRINT [0x01] True"

definition SetPageSize ::
  "(nat \<Rightarrow> bool) \<Rightarrow> NiimbotPrinter \<Rightarrow> u16 \<Rightarrow> u16 \<Rightarrow> u16 \<Rightarrow> esp_err_t \<times> NiimbotPrinter" where
  "SetPageSize ack p rows cols copies =
     SendPacket ack p SET_DIMENSION
       [hi_byte rows, lo_byte rows, hi_byte cols, lo_byte cols, hi_byte copies, lo_byte copies]
       True"

text \<open>
  \<open>SendBitmapRow\<close> copies \<open>row_len\<close> bytes of \<open>row_data\<close> behind a header of six
  bytes in a local array of 256 bytes. The model covers \<open>row_len \<le> 250\<close>, where the copy
  stays inside that array; \<open>Print\<close> always passes 48.
\<close>

definition SendBitmapRow ::
  "(nat \<Rightarrow> bool) \<Rightarrow> NiimbotPrinter \<Rightarrow> u16 \<Rightarrow> u8 list \<Rightarrow> nat \<Rightarrow> esp_err_t \<times> NiimbotPrinter" where
  "SendBitmapRow ack p row_num row_data row_len =
     SendPacket ack p PRINT_BITMAP_ROW
       ([hi_byte row_num, lo_byte row_num, 0, 0, 0, 1] @ take row_len row_data) True"

definition EndPagePrint :: "(nat \<Rightarrow> bool) \<Rightarrow> NiimbotPrinter \<Rightarrow> esp_err_t \<times> NiimbotPrinter" where
  "EndPagePrint ack p = SendPacket ack p END_PAGE_PRINT [0x01] True"

definition EndPrint :: "(nat \<Rightarrow> bool) \<Rightarrow> NiimbotPrinter \<Rightarrow> esp_err_t \<times> NiimbotPrinter" where
  "EndPrint ack p = SendPacket ack p END_PRINT [0x01] True"

subsection \<open>NiimbotPrinter::Print\<close>

text \<open>
  \<open>struct RleImage\<close> of signs.h. The two pointers are the lists they point to; only the
  row decoder reads them.
\<close>

record RleImage =
  img_w :: u16
  img_h :: u16
  img_row_offs :: "32 word list"
  img_data :: "u8 list"

definition kRowBytes :: nat where "kRowBytes = 48"

text \<open>
  \<open>Signs::decode_rle_row_1bpp\<close> is declared in signs.h and defined outside the sources
  at hand, so it is a parameter: \<open>dec img y i\<close> is the byte at index \<open>i\<close> of
  \<open>row_data\<close> after the decoder has run for row \<open>y\<close>.

  The \<open>for\<close> loop over the rows is \<open>Print_rows\<close>. Its counter is a 16-bit word, as in
  the source; it stays below \<open>print_height\<close>, so the increment never wraps.
\<close>

function Print_rows ::
  "(nat \<Rightarrow> bool) \<Rightarrow> (RleImage \<Rightarrow> u16 \<Rightarrow> nat \<Rightarrow> u8) \<Rightarrow> RleImage \<Rightarrow> u16 \<Rightarrow> u16
     \<Rightarrow> NiimbotPrinter \<Rightarrow> esp_err_t \<times> NiimbotPrinter" where
  "Print_rows ack dec img print_height y p =
     (if y < print_height then
        let row_data = map (dec img y) [0..<kRowBytes];
            r = SendBitmapRow ack p y row_data kRowBytes
        in if fst r \<noteq> ESP_OK then r
           else Print_rows ack dec img print_height (y + 1) (snd r)
      else (ESP_OK, p))"
  by pat_completeness auto
termination
proof (relation "measure (\<lambda>(ack, dec, img, print_height, y, p). unat print_height - unat y)")
  show "wf (measure (\<lambda>(ack, dec, img, print_height, y, p). unat print_height - unat y))"
    by simp
next
  fix ack :: "nat \<Rightarrow> bool" and dec :: "RleImage \<Rightarrow> u16 \<Rightarrow> nat \<Rightarrow> u8"
    and img :: RleImage and print_height y :: u16 and p :: NiimbotPrinter
    and x :: "u8 list" and xa :: "esp_err_t \<times> NiimbotPrinter"
  assume lt: "y < print_height"
  have ylt: "unat y < unat print_height" using lt by (simp add: word_less_nat_alt)
  moreover have "unat print_height < 2 ^ LENGTH(16)" by (rule unsigned_less)
  ultimately have "unat y + unat (1 :: u16) < 2 ^ LENGTH(16)" by simp
  then have "unat (y + 1) = unat y + unat (1 :: u16)" by (simp only: unat_add_lem)
  then have "unat (y + 1) = Suc (unat y)" by simp
  moreover note ylt
  ultimately show "((ack, dec, img, print_height, y + 1, snd xa),
                    (ack, dec, img, print_height, y, p))
        \<in> measure (\<lambda>(ack, dec, img, print_height, y, p). unat print_height - unat y)"
    by simp
qed

declare Print_rows.simps [simp del]

definition Print ::
  "(nat \<Rightarrow> bool) \<Rightarrow> (RleImage \<Rightarrow> u16 \<Rightarrow> nat \<Rightarrow> u8) \<Rightarrow> NiimbotPrinter \<Rightarrow> RleImage
     \<Rightarrow> esp_err_t \<times> NiimbotPrinter" where
  "Print ack dec p img =
     (if \<not> ready p then (ESP_ERR_INVALID_STATE, p)
      else
        let print_height =
              (if img_h img < kPaperHeightDots then img_h img else kPaperHeightDots);
            r1 = SetLabelDensity ack p 3
        in if fst r1 \<noteq> ESP_OK then r1 else
        let r2 = SetLabelType ack (snd r1) 1
        in if fst r2 \<noteq> ESP_OK then r2 else
        let r3 = StartPrint ack (snd r2) 1 0
        in if fst r3 \<noteq> ESP_OK then r3 else
        let r4 = StartPagePrint ack (snd r3)
        in if fst r4 \<noteq> ESP_OK then r4 else
        let r5 = SetPageSize ack (snd r4) print_height kPaperWidthDots 1
        in if fst r5 \<noteq> ESP_OK then r5 else
        let r6 = Print_rows ack dec img print_height 0 (snd r5)
        in if fst r6 \<noteq> ESP_OK then r6 else
        let r7 = EndPagePrint ack (snd r6)
        in if fst r7 \<noteq> ESP_OK then r7 else
        let r8 = EndPrint ack (snd r7)
        in if fst r8 \<noteq> ESP_OK then r8 else
        (ESP_OK, snd r8))"

subsection \<open>The print job as the specification words it\<close>

text \<open>
  The commands of one print job in the order of the specification, each a request code
  with its payload: density, label type, start print, start page, page dimensions with the
  capped row count and the paper width, one bitmap row per row index, end page, end print.
\<close>

definition capped_height :: "RleImage \<Rightarrow> nat" where
  "capped_height img = min (unat (img_h img)) 240"

definition bitmap_row_cmd ::
  "(RleImage \<Rightarrow> u16 \<Rightarrow> nat \<Rightarrow> u8) \<Rightarrow> RleImage \<Rightarrow> nat \<Rightarrow> RequestCode \<times> u8 list" where
  "bitmap_row_cmd dec img y =
     (PRINT_BITMAP_ROW,
      [of_nat (y div 256), of_nat (y mod 256), 0, 0, 0, 1]
        @ map (dec img (of_nat y)) [0..<48])"

definition print_steps ::
  "(RleImage \<Rightarrow> u16 \<Rightarrow> nat \<Rightarrow> u8) \<Rightarrow> RleImage \<Rightarrow> (RequestCode \<times> u8 list) list" where
  "print_steps dec img =
     [(SET_LABEL_DENSITY, [3]),
      (SET_LABEL_TYPE, [1]),
      (START_PRINT, [0, 1, 0, 0, 0, 0, 0]),
      (START_PAGE_PRINT, [1]),
      (SET_DIMENSION,
         [of_nat (capped_height img div 256), of_nat (capped_height img mod 256),
          of_nat (384 div 256), of_nat (384 mod 256), 0, 1])]
     @ map (bitmap_row_cmd dec img) [0..<capped_height img]
     @ [(END_PAGE_PRINT, [1]), (END_PRINT, [1])]"

text \<open>
  Issuing a list of commands one after the other: the first command whose send fails ends
  the run with that error, and no later command is sent.
\<close>

fun run_steps ::
  "(nat \<Rightarrow> bool) \<Rightarrow> NiimbotPrinter \<Rightarrow> (RequestCode \<times> u8 list) list
     \<Rightarrow> esp_err_t \<times> NiimbotPrinter" where
  "run_steps ack p [] = (ESP_OK, p)"
| "run_steps ack p (c # cs) =
     (let r = SendPacket ack p (fst c) (snd c) True in
      if fst r \<noteq> ESP_OK then r else run_steps ack (snd r) cs)"


text \<open>What the send callback receives for one command: its frame, with the wait flag set.\<close>

definition cmd_frame :: "RequestCode \<times> u8 list \<Rightarrow> u8 list \<times> bool" where
  "cmd_frame c = (frame_bytes (code_byte (fst c)) (snd c), True)"

text \<open>
  Two concrete values used to run the model: an image of two rows, and a printer with a
  send callback whose ready flag a heartbeat has set.
\<close>

definition two_row_image :: RleImage where
  "two_row_image = \<lparr>img_w = 384, img_h = 2, img_row_offs = [], img_data = []\<rparr>"

definition ready_printer :: NiimbotPrinter where
  "ready_printer =
     HandleResponse (SetSendCallback NiimbotPrinter_init) 0xDD [0, 0, 0, 0, 0, 0, 0, 0, 0]"

subsection \<open>Sequences of handled frames and resets\<close>

text \<open>
  What can happen to the ready flag between connection cycles: a frame is handed to
  \<open>HandleResponse\<close>, or \<open>Reset\<close> is called. \<open>run_events\<close> applies a list of such
  events from left to right. \<open>is_ready_heartbeat\<close> is the test of the heartbeat
  branch; \<open>has_ready_heartbeat\<close> says that some handled frame of the list passes it.
\<close>

datatype printer_event = FrameHandled u8 "u8 list" | ResetCalled

fun apply_event :: "NiimbotPrinter \<Rightarrow> printer_event \<Rightarrow> NiimbotPrinter" where
  "apply_event p (FrameHandled type data) = HandleResponse p type data"
| "apply_event p ResetCalled = Reset p"

definition run_events :: "NiimbotPrinter \<Rightarrow> printer_event list \<Rightarrow> NiimbotPrinter" where
  "run_events p es = foldl apply_event p es"

definition is_ready_heartbeat :: "u8 \<Rightarrow> u8 list \<Rightarrow> bool" where
  "is_ready_heartbeat type data = (type = 0xDD \<and> 9 \<le> length data)"

fun event_is_ready_heartbeat :: "printer_event \<Rightarrow> bool" where
  "event_is_ready_heartbeat (FrameHandled type data) = is_ready_heartbeat type data"
| "event_is_ready_heartbeat ResetCalled = False"

definition has_ready_heartbeat :: "printer_event list \<Rightarrow> bool" where
  "has_ready_heartbeat es = list_ex event_is_ready_heartbeat es"


subsection \<open>Corrupting a frame\<close>

text \<open>\<open>flip_frame_bit k b xs\<close> inverts bit \<open>b\<close> of the byte at index \<open>k\<close> of \<open>xs\<close>.\<close>

definition flip_frame_bit :: "nat \<Rightarrow> nat \<Rightarrow> u8 list \<Rightarrow> u8 list" where
  "flip_frame_bit k b xs = xs[k := xs ! k XOR push_bit b 1]"


text \<open>
  \<open>corrupt_checksum c xs\<close> is the frame \<open>xs\<close> with its checksum byte (the third from
  the end) replaced by \<open>c\<close>. \<open>has_start_pair xs\<close> says that two adjacent bytes of
  \<open>xs\<close> are the two start markers.
\<close>

definition corrupt_checksum :: "u8 \<Rightarrow> u8 list \<Rightarrow> u8 list" where
  "corrupt_checksum c xs = xs[length xs - 3 := c]"

fun has_start_pair :: "u8 list \<Rightarrow> bool" where
  "has_start_pair [] = False"
| "has_start_pair [a] = False"
| "has_start_pair (a # b # xs) =
     ((a = kPacketStart1 \<and> b = kPacketStart2) \<or> has_start_pair (b # xs))"


section \<open>Frame codec: lemmas\<close>

lemma BuildPacket_loop_eq:
  "i \<le> length data \<Longrightarrow> 4 + length data \<le> length buf \<Longrightarrow>
   BuildPacket_loop buf data i c =
     (take (4 + i) buf @ drop i data @ drop (4 + length data) buf,
      fold (\<lambda>b c. c XOR b) (drop i data) c)"
proof (induction buf data i c rule: BuildPacket_loop.induct)
  case (1 buf data i checksum)
  show ?case
  proof (cases "i < length data")
    case True
    have d: "drop i data = data ! i # drop (Suc i) data"
      using True by (simp add: Cons_nth_drop_Suc)
    have t: "take (5 + i) (buf[4 + i := data ! i]) = take (4 + i) buf @ [data ! i]"
    proof -
      have l: "4 + i < length buf" using True 1(3) by simp
      then have "4 + i < length (buf[4 + i := data ! i])" by simp
      from take_Suc_conv_app_nth[OF this] show ?thesis using l by simp
    qed
    have "BuildPacket_loop buf data i checksum =
          BuildPacket_loop (buf[4 + i := data ! i]) data (Suc i) (checksum XOR data ! i)"
      using True by (subst BuildPacket_loop.simps) simp
    also have "\<dots> = (take (4 + Suc i) (buf[4 + i := data ! i]) @ drop (Suc i) data
                      @ drop (4 + length data) (buf[4 + i := data ! i]),
                     fold (\<lambda>b c. c XOR b) (drop (Suc i) data) (checksum XOR data ! i))"
      using True 1 by simp
    finally show ?thesis using True by (simp add: d t)
  next
    case False
    with 1(2) have "i = length data" by simp
    then show ?thesis using 1(3) by (subst BuildPacket_loop.simps) simp
  qed
qed

lemma ParsePacket_loop_eq:
  "i \<le> n \<Longrightarrow> 4 + n \<le> length buf \<Longrightarrow>
   ParsePacket_loop buf n i data c =
     (data @ take (n - i) (drop (4 + i) buf),
      fold (\<lambda>b c. c XOR b) (take (n - i) (drop (4 + i) buf)) c)"
proof (induction buf n i data c rule: ParsePacket_loop.induct)
  case (1 buf n i data checksum)
  show ?case
  proof (cases "i < n")
    case True
    have d: "take (n - i) (drop (4 + i) buf) = buf ! (4 + i) # take (n - Suc i) (drop (4 + Suc i) buf)"
      using True 1(3)
      by (metis Cons_nth_drop_Suc Suc_diff_Suc add_Suc_right add_less_cancel_left less_le_trans take_Suc_Cons)
    have "ParsePacket_loop buf n i data checksum =
          ParsePacket_loop buf n (Suc i) (data @ [buf ! (4 + i)]) (checksum XOR buf ! (4 + i))"
      using True by (subst ParsePacket_loop.simps) simp
    also have "\<dots> = ((data @ [buf ! (4 + i)]) @ take (n - Suc i) (drop (4 + Suc i) buf),
        fold (\<lambda>b c. c XOR b) (take (n - Suc i) (drop (4 + Suc i) buf)) (checksum XOR buf ! (4 + i)))"
      using True 1 by simp
    finally show ?thesis by (simp add: d)
  next
    case False
    then show ?thesis by (subst ParsePacket_loop.simps) simp
  qed
qed

lemma upd_take4:
  "4 \<le> length buf \<Longrightarrow> take 4 (buf[0 := a, 1 := b, 2 := c, 3 := d]) = [a, b, c, d]"
  by (cases buf; cases "tl buf"; cases "tl (tl buf)"; cases "tl (tl (tl buf))") auto

lemma BuildPacket_frame:
  assumes "length data + 7 \<le> length buf"
  shows "fst (BuildPacket buf type data) = length data + 7"
    and "built_frame buf type data = frame_bytes type data"
proof -
  let ?n = "length data"
  let ?b3 = "buf[0 := kPacketStart1, 1 := kPacketStart2, 2 := type, 3 := of_nat ?n]"
  let ?c = "xor_fold type data"
  have len3: "4 + ?n \<le> length ?b3" using assms by simp
  have loop: "BuildPacket_loop ?b3 data 0 (type XOR of_nat ?n)
              = (take 4 ?b3 @ data @ drop (4 + ?n) ?b3, ?c)"
    using BuildPacket_loop_eq[OF _ len3, of 0 "type XOR of_nat ?n"]
    by (simp add: xor_fold_def)
  have t4: "take 4 ?b3 = [kPacketStart1, kPacketStart2, type, of_nat ?n]"
    using assms by (intro upd_take4) simp
  let ?b4 = "[kPacketStart1, kPacketStart2, type, of_nat ?n] @ data @ drop (4 + ?n) ?b3"
  have bp: "BuildPacket buf type data =
          (?n + 7, ?b4[4 + ?n := ?c, 5 + ?n := kPacketEnd1, 6 + ?n := kPacketEnd2])"
    unfolding BuildPacket_def Let_def loop t4 using assms by simp
  show "fst (BuildPacket buf type data) = length data + 7" by (simp add: bp)
  obtain x y z r where d: "drop (4 + ?n) ?b3 = x # y # z # r"
  proof -
    have "3 \<le> length (drop (4 + ?n) ?b3)" using assms by simp
    then show ?thesis using that
      by (cases "drop (4 + ?n) ?b3"; cases "tl (drop (4 + ?n) ?b3)";
          cases "tl (tl (drop (4 + ?n) ?b3))") auto
  qed
  have "?b4[4 + ?n := ?c, 5 + ?n := kPacketEnd1, 6 + ?n := kPacketEnd2]
        = frame_bytes type data @ r"
    unfolding d
    by (simp add: frame_bytes_def list_update_append kPacketStart1_def kPacketStart2_def
          kPacketEnd1_def kPacketEnd2_def)
  moreover have "length (frame_bytes type data) = ?n + 7" by (simp add: frame_bytes_def)
  ultimately have "take (?n + 7) (?b4[4 + ?n := ?c, 5 + ?n := kPacketEnd1, 6 + ?n := kPacketEnd2])
        = frame_bytes type data" by simp
  then show "built_frame buf type data = frame_bytes type data"
    by (simp add: built_frame_def bp)
qed

lemma ParsePacket_layout:
  assumes "length data \<le> 255"
  shows "ParsePacket ([0x55, 0x55, type, of_nat (length data)] @ data @ [c, e1, e2] @ rest) =
           (if e1 \<noteq> 0xAA \<or> e2 \<noteq> 0xAA then Inl BadEnd
            else if c \<noteq> xor_fold type data then Inl ChecksumMismatch
            else Inr (type, data))"
proof -
  let ?n = "length data"
  let ?F = "[0x55, 0x55, type, of_nat ?n] @ data @ [c, e1, e2] @ rest"
  have un: "unat (of_nat ?n :: u8) = ?n" using assms by (simp add: unat_of_nat)
  have len: "length ?F = ?n + 7 + length rest" by simp
  have n0: "?F ! 0 = 0x55" "?F ! Suc 0 = 0x55" "?F ! 2 = type" "?F ! 3 = of_nat ?n"
    by simp_all
  have n4: "?F ! (4 + ?n) = c" "?F ! (5 + ?n) = e1" "?F ! (6 + ?n) = e2"
    by (simp_all add: nth_append)
  have td: "take ?n (drop 4 ?F) = data" by simp
  have loop: "ParsePacket_loop ?F ?n 0 [] (type XOR of_nat ?n) = (data, xor_fold type data)"
    using ParsePacket_loop_eq[of 0 ?n ?F "[]" "type XOR of_nat ?n"] len
    by (simp add: td xor_fold_def)
  show ?thesis
    unfolding ParsePacket_def Let_def len n0 n4 un loop
    by (auto simp: n0 kPacketStart1_def kPacketStart2_def kPacketEnd1_def kPacketEnd2_def)
qed

lemma ParsePacket_frame:
  assumes "length data \<le> 255"
  shows "ParsePacket (frame_bytes type data @ rest) = Inr (type, data)"
  using ParsePacket_layout[OF assms, of type "xor_fold type data" "0xAA" "0xAA" rest]
  by (simp add: frame_bytes_def)

section \<open>Round trip of the frame codec\<close>

text \<open>
  Claim C1. For every type byte and every payload of 0 to 248 bytes, \<open>BuildPacket\<close> into
  an array of at least payload length + 7 bytes returns payload length + 7 and writes
  \<open>[0x55][0x55][type][len][payload][checksum][0xAA][0xAA]\<close>, where the length byte is the
  payload length and the checksum is the XOR of type, length byte and all payload bytes;
  \<open>ParsePacket\<close> on these bytes succeeds and returns the same type and payload.
\<close>

theorem build_parse_roundtrip:
  assumes "length data \<le> 248" and "length data + 7 \<le> length buf"
  shows "fst (BuildPacket buf type data) = length data + 7
       \<and> built_frame buf type data
           = [0x55, 0x55, type, of_nat (length data)] @ data @ [xor_fold type data, 0xAA, 0xAA]
       \<and> length (built_frame buf type data) = length data + 7
       \<and> unat (built_frame buf type data ! 3) = length data
       \<and> ParsePacket (built_frame buf type data) = Inr (type, data)"
proof -
  have f: "built_frame buf type data = frame_bytes type data"
    using assms(2) by (rule BuildPacket_frame(2))
  have "unat (of_nat (length data) :: u8) = length data"
    using assms(1) by (simp add: unat_of_nat)
  moreover have "ParsePacket (frame_bytes type data) = Inr (type, data)"
    using ParsePacket_frame[of data type "[]"] assms(1) by simp
  ultimately show ?thesis
    using BuildPacket_frame(1)[OF assms(2), of type] f by (simp add: frame_bytes_def)
qed

theorem build_parse_roundtrip_witness:
  "length [1 :: u8] \<le> 248 \<and> length [1 :: u8] + 7 \<le> length (replicate 16 (0 :: u8))
   \<and> built_frame (replicate 16 0) 0xDC [1] = [0x55, 0x55, 0xDC, 1, 1, 0xDC, 0xAA, 0xAA]
   \<and> ParsePacket (built_frame (replicate 16 0) 0xDC [1]) = Inr (0xDC, [1])"
  using build_parse_roundtrip[of "[1]" "replicate 16 0" "0xDC"]
  by (auto simp: xor_fold_def)

lemma HandleResponse_ready:
  "ready (HandleResponse p t d) = (ready p \<or> is_ready_heartbeat t d)"
  by (simp add: HandleResponse_def is_ready_heartbeat_def Let_def)

lemma HandleResponse_ready_fired:
  "ready_fired (HandleResponse p t d) =
     ready_fired p + (if \<not> ready p \<and> is_ready_heartbeat t d \<and> ready_callback_set p then 1 else 0)"
  by (simp add: HandleResponse_def is_ready_heartbeat_def Let_def)

lemma HandleResponse_ready_callback_set:
  "ready_callback_set (HandleResponse p t d) = ready_callback_set p"
  by (simp add: HandleResponse_def Let_def)

lemma run_events_no_reset:
  "ResetCalled \<notin> set es \<Longrightarrow>
     ready (run_events p es) = (ready p \<or> has_ready_heartbeat es)
   \<and> ready_callback_set (run_events p es) = ready_callback_set p
   \<and> ready_fired (run_events p es) =
       ready_fired p + (if \<not> ready p \<and> has_ready_heartbeat es \<and> ready_callback_set p then 1 else 0)"
proof (induction es arbitrary: p)
  case Nil
  then show ?case by (simp add: run_events_def has_ready_heartbeat_def)
next
  case (Cons e es)
  then obtain t d where e: "e = FrameHandled t d" by (cases e) auto
  have r: "run_events p (e # es) = run_events (HandleResponse p t d) es"
    by (simp add: run_events_def e)
  have h: "has_ready_heartbeat (e # es) = (is_ready_heartbeat t d \<or> has_ready_heartbeat es)"
    by (simp add: has_ready_heartbeat_def e)
  from Cons have ih: "ready (run_events (HandleResponse p t d) es) =
        (ready (HandleResponse p t d) \<or> has_ready_heartbeat es)
      \<and> ready_callback_set (run_events (HandleResponse p t d) es)
          = ready_callback_set (HandleResponse p t d)
      \<and> ready_fired (run_events (HandleResponse p t d) es) =
          ready_fired (HandleResponse p t d)
          + (if \<not> ready (HandleResponse p t d) \<and> has_ready_heartbeat es
                \<and> ready_callback_set (HandleResponse p t d) then 1 else 0)"
    by simp
  show ?case
    unfolding r h using ih
    by (auto simp: HandleResponse_ready HandleResponse_ready_fired HandleResponse_ready_callback_set)
qed

section \<open>The ready flag\<close>

text \<open>
  Claim C4. Over any sequence of handled frames and \<open>Reset\<close> calls: handling a frame
  turns the ready flag from false to true exactly when the flag is false and the frame is
  a heartbeat response (type 0xDD) with at least 9 payload bytes; handling a frame never
  clears the flag; the ready callback (when one is registered) is called at exactly these
  transitions and at no other step; \<open>Reset\<close> clears the flag and calls nothing. Hence
  in any run of handled frames after a \<open>Reset\<close> and before the next one, the flag ends
  up set exactly if such a heartbeat was handled, and the callback was then called once,
  and otherwise not at all.
\<close>
theorem ready_flag_lifecycle:
  "((\<not> ready p \<and> ready (HandleResponse p t d)) = (\<not> ready p \<and> t = 0xDD \<and> 9 \<le> length d))
   \<and> (ready p \<longrightarrow> ready (HandleResponse p t d))
   \<and> ready_fired (HandleResponse p t d) =
        ready_fired p
        + (if \<not> ready p \<and> ready (HandleResponse p t d) \<and> ready_callback_set p then 1 else 0)
   \<and> \<not> ready (Reset p) \<and> ready_fired (Reset p) = ready_fired p
   \<and> (ResetCalled \<notin> set es \<longrightarrow>
        ready (run_events (Reset p) es) = has_ready_heartbeat es
      \<and> ready_fired (run_events (Reset p) es) =
          ready_fired p + (if has_ready_heartbeat es \<and> ready_callback_set p then 1 else 0))"
proof -
  have a: "(\<not> ready p \<and> ready (HandleResponse p t d)) = (\<not> ready p \<and> t = 0xDD \<and> 9 \<le> length d)"
    by (auto simp: HandleResponse_ready is_ready_heartbeat_def)
  have b: "ready p \<longrightarrow> ready (HandleResponse p t d)"
    by (simp add: HandleResponse_ready)
  have c: "ready_fired (HandleResponse p t d) =
        ready_fired p
        + (if \<not> ready p \<and> ready (HandleResponse p t d) \<and> ready_callback_set p then 1 else 0)"
    by (simp add: HandleResponse_ready HandleResponse_ready_fired)
  have d: "\<not> ready (Reset p) \<and> ready_fired (Reset p) = ready_fired p"
    by (simp add: Reset_def)
  have e: "ResetCalled \<notin> set es \<longrightarrow>
        ready (run_events (Reset p) es) = has_ready_heartbeat es
      \<and> ready_fired (run_events (Reset p) es) =
          ready_fired p + (if has_ready_heartbeat es \<and> ready_callback_set p then 1 else 0)"
    using run_events_no_reset[of es "Reset p"] by (simp add: Reset_def)
  from a b c d e show ?thesis by blast
qed

theorem ready_flag_lifecycle_witness:
  "ready (HandleResponse (SetReadyCallback NiimbotPrinter_init) 0xDD [0, 0, 0, 0, 0, 0, 0, 0, 7])
   \<and> ready (HandleResponse (HandleResponse (SetReadyCallback NiimbotPrinter_init) 0xDD [0, 0, 0, 0, 0, 0, 0, 0, 7]) 0x02 [1])
   \<and> ResetCalled \<notin> set [FrameHandled 0x02 [1], FrameHandled 0xDD [0, 0, 0, 0, 0, 0, 0, 0, 7],
                           FrameHandled 0xDD [0, 0, 0, 0, 0, 0, 0, 0, 7]]
   \<and> ready_fired (run_events (Reset (SetReadyCallback NiimbotPrinter_init))
        [FrameHandled 0x02 [1], FrameHandled 0xDD [0, 0, 0, 0, 0, 0, 0, 0, 7],
         FrameHandled 0xDD [0, 0, 0, 0, 0, 0, 0, 0, 7]]) = 1"
  using ready_flag_lifecycle[of "HandleResponse (SetReadyCallback NiimbotPrinter_init) 0xDD [0, 0, 0, 0, 0, 0, 0, 0, 7]"
          "0x02" "[1]"
          "[FrameHandled 0x02 [1], FrameHandled 0xDD [0, 0, 0, 0, 0, 0, 0, 0, 7],
            FrameHandled 0xDD [0, 0, 0, 0, 0, 0, 0, 0, 7]]"]
        ready_flag_lifecycle[of "SetReadyCallback NiimbotPrinter_init"
          "0xDD" "[0, 0, 0, 0, 0, 0, 0, 0, 7]"
          "[FrameHandled 0x02 [1], FrameHandled 0xDD [0, 0, 0, 0, 0, 0, 0, 0, 7],
            FrameHandled 0xDD [0, 0, 0, 0, 0, 0, 0, 0, 7]]"]
  by (simp add: SetReadyCallback_def NiimbotPrinter_init_def has_ready_heartbeat_def
        is_ready_heartbeat_def Reset_def)

section \<open>Decoding the heartbeat\<close>

text \<open>
  Claim C5. Handling a heartbeat response (type 0xDD) with a payload of 13 bytes sets
  closing_state, power_level, paper_state and rfid_read_state to the payload bytes at
  offsets 9, 10, 11 and 12. Handling one with a payload of 9 bytes sets closing_state to
  the byte at offset 8 and leaves the other three fields as they were.
\<close>
theorem heartbeat_decode:
  "(length d = 13 \<longrightarrow>
      closing_state (status (HandleResponse p 0xDD d)) = d ! 9
    \<and> power_level (status (HandleResponse p 0xDD d)) = d ! 10
    \<and> paper_state (status (HandleResponse p 0xDD d)) = d ! 11
    \<and> rfid_read_state (status (HandleResponse p 0xDD d)) = d ! 12)
   \<and> (length d = 9 \<longrightarrow>
      closing_state (status (HandleResponse p 0xDD d)) = d ! 8
    \<and> power_level (status (HandleResponse p 0xDD d)) = power_level (status p)
    \<and> paper_state (status (HandleResponse p 0xDD d)) = paper_state (status p)
    \<and> rfid_read_state (status (HandleResponse p 0xDD d)) = rfid_read_state (status p))"
  by (simp add: HandleResponse_def heartbeat_status_def Let_def)

theorem heartbeat_decode_witness:
  "length [0, 1, 2, 3, 4, 5, 6, 7, 8, 9, 10, 11, 12 :: u8] = 13
   \<and> status (HandleResponse NiimbotPrinter_init 0xDD [0, 1, 2, 3, 4, 5, 6, 7, 8, 9, 10, 11, 12])
       = \<lparr>closing_state = 9, power_level = 10, paper_state = 11, rfid_read_state = 12\<rparr>
   \<and> length [0, 1, 2, 3, 4, 5, 6, 7, 8 :: u8] = 9
   \<and> status (HandleResponse NiimbotPrinter_init 0xDD [0, 1, 2, 3, 4, 5, 6, 7, 8])
       = \<lparr>closing_state = 8, power_level = 0, paper_state = 0, rfid_read_state = 0\<rparr>"
  using heartbeat_decode[of "[0, 1, 2, 3, 4, 5, 6, 7, 8, 9, 10, 11, 12]" NiimbotPrinter_init]
        heartbeat_decode[of "[0, 1, 2, 3, 4, 5, 6, 7, 8]" NiimbotPrinter_init]
  by (simp add: NiimbotPrinter_init_def Status_init_def)

section \<open>Printing while not ready\<close>

text \<open>
  Claim C10. For every image, when the ready flag is false \<open>Print\<close> returns
  \<open>ESP_ERR_INVALID_STATE\<close> and the printer object is the one it started from: nothing
  was passed to the send callback and no member changed.
\<close>
theorem print_not_ready:
  "\<not> IsReady p \<Longrightarrow> Print ack dec p img = (ESP_ERR_INVALID_STATE, p)"
  by (simp add: Print_def IsReady_def)

theorem print_not_ready_witness:
  "\<not> IsReady (SetSendCallback NiimbotPrinter_init)
   \<and> Print (\<lambda>n. True) (\<lambda>i y k. 0) (SetSendCallback NiimbotPrinter_init)
        \<lparr>img_w = 384, img_h = 240, img_row_offs = [], img_data = []\<rparr>
       = (ESP_ERR_INVALID_STATE, SetSendCallback NiimbotPrinter_init)
   \<and> sent (snd (Print (\<lambda>n. True) (\<lambda>i y k. 0) (SetSendCallback NiimbotPrinter_init)
        \<lparr>img_w = 384, img_h = 240, img_row_offs = [], img_data = []\<rparr>)) = []"
  using print_not_ready[of "SetSendCallback NiimbotPrinter_init" "\<lambda>n. True" "\<lambda>i y k. 0"
          "\<lparr>img_w = 384, img_h = 240, img_row_offs = [], img_data = []\<rparr>"]
  by (simp add: IsReady_def SetSendCallback_def NiimbotPrinter_init_def)

lemma fold_xor_acc:
  "fold (\<lambda>b c. c XOR b) xs (c XOR m) = fold (\<lambda>b c. c XOR b) xs (c :: u8) XOR m"
proof (induction xs arbitrary: c)
  case Nil
  then show ?case by simp
next
  case (Cons x xs)
  have "(c XOR m) XOR x = (c XOR x) XOR m" by (simp add: ac_simps)
  then show ?case using Cons[of "c XOR x"] by simp
qed

lemma fold_xor_update:
  "j < length xs \<Longrightarrow>
   fold (\<lambda>b c. c XOR b) (xs[j := xs ! j XOR m]) c = fold (\<lambda>b c. c XOR b) xs (c :: u8) XOR m"
proof (induction xs arbitrary: j c)
  case Nil
  then show ?case by simp
next
  case (Cons x xs)
  show ?case
  proof (cases j)
    case 0
    have "fold (\<lambda>b c. c XOR b) xs (c XOR (x XOR m)) = fold (\<lambda>b c. c XOR b) xs ((c XOR x) XOR m)"
      by (simp add: xor.assoc)
    then show ?thesis using 0 by (simp add: fold_xor_acc)
  next
    case (Suc k)
    then show ?thesis using Cons by simp
  qed
qed

lemma xor_fold_update:
  "j < length data \<Longrightarrow> xor_fold type (data[j := data ! j XOR m]) = xor_fold type data XOR m"
  by (simp add: xor_fold_def fold_xor_update)

lemma push_bit_1_nonzero: "b < 8 \<Longrightarrow> push_bit b (1 :: u8) \<noteq> 0"
  by (simp add: push_bit_eq_mult)

lemma xor_nonzero_neq: "m \<noteq> 0 \<Longrightarrow> (x :: u8) XOR m \<noteq> x"
  by (metis bit.xor_left_self bit.xor_self)

lemma ParsePacket_Inr:
  assumes "ParsePacket buf = Inr (t, d)"
  shows "t = buf ! 2 \<and> length d = unat (buf ! 3) \<and> unat (buf ! 3) + 7 \<le> length buf"
proof -
  let ?n = "unat (buf ! 3)"
  from assms have len: "?n + 7 \<le> length buf"
    by (auto simp: ParsePacket_def Let_def split: if_splits prod.splits)
  then have "ParsePacket_loop buf ?n 0 [] (buf ! 2 XOR of_nat ?n)
             = (take ?n (drop 4 buf), fold (\<lambda>b c. c XOR b) (take ?n (drop 4 buf)) (buf ! 2 XOR of_nat ?n))"
    using ParsePacket_loop_eq[of 0 ?n buf "[]"] by simp
  with assms len show ?thesis
    by (auto simp: ParsePacket_def Let_def split: if_splits)
qed

lemma flip_payload:
  assumes "j < length data"
  shows "flip_frame_bit (4 + j) b (frame_bytes type data) =
         [0x55, 0x55, type, of_nat (length data)] @ data[j := data ! j XOR push_bit b 1]
           @ [xor_fold type data, 0xAA, 0xAA] @ []"
  using assms by (simp add: flip_frame_bit_def frame_bytes_def list_update_append nth_append)

lemma flip_length:
  "flip_frame_bit 3 b (frame_bytes type data) =
         [0x55, 0x55, type, of_nat (length data) XOR push_bit b 1] @ data
           @ [xor_fold type data, 0xAA, 0xAA]"
  by (simp add: flip_frame_bit_def frame_bytes_def)

lemma unat_set_clear_bit:
  assumes "\<not> bit (x :: u8) b" and "b < 8"
  shows "unat x < unat (x XOR push_bit b 1)"
proof -
  have "x AND 2 ^ b = 0" using assms(1) by (simp add: and_exp_eq_0_iff_not_bit)
  then have "x XOR 2 ^ b = x OR 2 ^ b"
    by (simp add: disjunctive_xor_eq_or bit_eq_iff bit_and_iff)
  moreover have "x \<le> x OR 2 ^ b" by (rule le_word_or2)
  moreover have "x XOR 2 ^ b \<noteq> x"
    using push_bit_1_nonzero[OF assms(2)] xor_nonzero_neq[of "push_bit b 1" x] by simp
  ultimately have "x < x XOR 2 ^ b" by simp
  then show ?thesis by (simp add: word_less_nat_alt)
qed

section \<open>Bit flips in a built frame\<close>

text \<open>
  Claim C7 as stated fails for the length byte: inverting bit 0 of the length byte of the
  frame built for type 0 with an empty payload makes \<open>ParsePacket\<close> stop at the
  length test (\<open>Incomplete\<close>), before any checksum is computed.
\<close>

theorem length_flip_not_checksum_mismatch:
  "ParsePacket (flip_frame_bit 3 0 (built_frame (replicate 7 0) 0 [])) = Inl Incomplete
   \<and> ParsePacket (flip_frame_bit 3 0 (built_frame (replicate 7 0) 0 [])) \<noteq> Inl ChecksumMismatch"
proof -
  have "built_frame (replicate 7 0) 0 [] = frame_bytes 0 []"
    by (rule BuildPacket_frame(2)) simp
  then have "flip_frame_bit 3 0 (built_frame (replicate 7 0) 0 []) = [0x55, 0x55, 0, 1, 0, 0xAA, 0xAA]"
    by (simp add: frame_bytes_def flip_frame_bit_def xor_fold_def)
  then show ?thesis
    by (simp add: ParsePacket_def kPacketStart1_def kPacketStart2_def)
qed

text \<open>
  Claim C7, amended. For every type byte and payload of 0 to 248 bytes, inverting any
  single bit of any payload byte of the built frame makes \<open>ParsePacket\<close> fail at the
  checksum test (\<open>ChecksumMismatch\<close>, a kind of its own beside \<open>TooShort\<close>,
  \<open>BadStart\<close>, \<open>Incomplete\<close> and \<open>BadEnd\<close>). Inverting a single bit of the
  length byte never gives back the original type and payload, and where it sets a bit
  that was clear, the failure is \<open>Incomplete\<close>.
\<close>

theorem payload_flip_checksum_mismatch:
  assumes "length data \<le> 248" and "length data + 7 \<le> length buf" and "b < 8"
  shows "(\<forall>j < length data.
            ParsePacket (flip_frame_bit (4 + j) b (built_frame buf type data)) = Inl ChecksumMismatch)
       \<and> ParsePacket (flip_frame_bit 3 b (built_frame buf type data)) \<noteq> Inr (type, data)
       \<and> (\<not> bit (built_frame buf type data ! 3) b \<longrightarrow>
            ParsePacket (flip_frame_bit 3 b (built_frame buf type data)) = Inl Incomplete)"
proof -
  let ?n = "length data"
  let ?m = "push_bit b 1 :: u8"
  have f: "built_frame buf type data = frame_bytes type data"
    using assms(2) by (rule BuildPacket_frame(2))
  have m: "?m \<noteq> 0" using assms(3) by (rule push_bit_1_nonzero)
  have un: "unat (of_nat ?n :: u8) = ?n" using assms(1) by (simp add: unat_of_nat)
  have a: "\<forall>j < ?n. ParsePacket (flip_frame_bit (4 + j) b (frame_bytes type data)) = Inl ChecksumMismatch"
  proof (intro allI impI)
    fix j assume j: "j < ?n"
    let ?d = "data[j := data ! j XOR ?m]"
    have "length ?d \<le> 255" using assms(1) by simp
    from ParsePacket_layout[OF this, of type "xor_fold type data" "0xAA" "0xAA" "[]"]
    have "ParsePacket (flip_frame_bit (4 + j) b (frame_bytes type data)) =
          (if xor_fold type data \<noteq> xor_fold type ?d then Inl ChecksumMismatch else Inr (type, ?d))"
      by (simp add: flip_payload[OF j])
    moreover have "xor_fold type ?d \<noteq> xor_fold type data"
      using xor_nonzero_neq[OF m] by (simp add: xor_fold_update[OF j])
    ultimately show "ParsePacket (flip_frame_bit (4 + j) b (frame_bytes type data)) = Inl ChecksumMismatch"
      by simp
  qed
  let ?G = "flip_frame_bit 3 b (frame_bytes type data)"
  have g3: "?G ! 3 = of_nat ?n XOR ?m" by (simp add: flip_length)
  have glen: "length ?G = ?n + 7" by (simp add: flip_length)
  have g01: "?G ! 0 = 0x55" "?G ! Suc 0 = 0x55" by (simp_all add: flip_length)
  have b: "ParsePacket ?G \<noteq> Inr (type, data)"
  proof
    assume "ParsePacket ?G = Inr (type, data)"
    from ParsePacket_Inr[OF this] have "?n = unat (of_nat ?n XOR ?m :: u8)" by (simp add: g3)
    then have "(of_nat ?n :: u8) = of_nat ?n XOR ?m"
      using un by (metis word_unat_eq_iff)
    then show False using xor_nonzero_neq[OF m, of "of_nat ?n"] by simp
  qed
  have c: "\<not> bit (frame_bytes type data ! 3) b \<longrightarrow> ParsePacket ?G = Inl Incomplete"
  proof
    assume "\<not> bit (frame_bytes type data ! 3) b"
    then have "\<not> bit (of_nat ?n :: u8) b" by (simp add: frame_bytes_def)
    from unat_set_clear_bit[OF this assms(3)] have "?n < unat (?G ! 3)" by (simp add: g3 un)
    then show "ParsePacket ?G = Inl Incomplete"
      unfolding ParsePacket_def Let_def glen
      by (simp add: g01 kPacketStart1_def kPacketStart2_def)
  qed
  from a b c show ?thesis unfolding f by blast
qed

theorem payload_flip_checksum_mismatch_witness:
  "length [7 :: u8] \<le> 248 \<and> length [7 :: u8] + 7 \<le> length (replicate 8 (0 :: u8)) \<and> (2 :: nat) < 8
   \<and> (0 :: nat) < length [7 :: u8]
   \<and> ParsePacket (flip_frame_bit (4 + 0) 2 (built_frame (replicate 8 0) 0xDD [7])) = Inl ChecksumMismatch
   \<and> \<not> bit (built_frame (replicate 8 0) 0xDD [7] ! 3) 2
   \<and> ParsePacket (flip_frame_bit 3 2 (built_frame (replicate 8 0) 0xDD [7])) = Inl Incomplete"
proof -
  have f: "built_frame (replicate 8 0) 0xDD [7] = frame_bytes 0xDD [7]"
    by (rule BuildPacket_frame(2)) simp
  have "\<not> bit (built_frame (replicate 8 0) 0xDD [7] ! 3) 2"
    unfolding f by (simp add: frame_bytes_def)
  then show ?thesis
    using payload_flip_checksum_mismatch[of "[7]" "replicate 8 0" 2 "0xDD"]
    by simp
qed

section \<open>Bounds on built frames\<close>

text \<open>
  Claim C9 as stated fails: into the 256-byte array of \<open>SendPacket\<close>,
  \<open>BuildPacket\<close> accepts a payload of 249 bytes and produces a frame of 256 bytes.
\<close>

theorem payload_249_counterexample:
  "fst (BuildPacket (replicate kSendBufSize 0) 0x85 (replicate 249 0)) = 256
   \<and> length (built_frame (replicate kSendBufSize 0) 0x85 (replicate 249 0)) = 256
   \<and> \<not> length (replicate 249 (0 :: u8)) \<le> 248"
proof -
  have l: "length (replicate 249 (0 :: u8)) + 7 \<le> length (replicate kSendBufSize (0 :: u8))"
    by (simp add: kSendBufSize_def)
  show ?thesis
    using BuildPacket_frame[OF l, of "0x85"] by (simp add: frame_bytes_def)
qed

text \<open>
  Claim C9, amended. Every frame that \<open>BuildPacket\<close> produces into an array of at
  most 256 bytes (the array of \<open>SendPacket\<close>) has a payload of at most 249 bytes and
  a total length of payload length + 7, at most 256, and its length byte equals the
  payload length.
\<close>

theorem built_frame_bounds:
  assumes "length buf \<le> kSendBufSize" and "fst (BuildPacket buf type data) \<noteq> 0"
  shows "length data \<le> 249
       \<and> fst (BuildPacket buf type data) = length data + 7
       \<and> length (built_frame buf type data) = length data + 7
       \<and> length (built_frame buf type data) \<le> 256
       \<and> unat (built_frame buf type data ! 3) = length data"
proof -
  have l: "length data + 7 \<le> length buf"
    using assms(2) by (auto simp: BuildPacket_def Let_def split: if_splits)
  then have n: "length data \<le> 249" using assms(1) by (simp add: kSendBufSize_def)
  then have un: "unat (of_nat (length data) :: u8) = length data" by (simp add: unat_of_nat)
  show ?thesis
    using BuildPacket_frame[OF l, of type] n un by (simp add: frame_bytes_def)
qed

theorem built_frame_bounds_witness:
  "length (replicate kSendBufSize (0 :: u8)) \<le> kSendBufSize
   \<and> fst (BuildPacket (replicate kSendBufSize 0) 0x85 (replicate 249 0)) \<noteq> 0
   \<and> unat (built_frame (replicate kSendBufSize 0) 0x85 (replicate 249 0) ! 3) = 249"
proof -
  have l: "length (replicate 249 (0 :: u8)) + 7 \<le> length (replicate kSendBufSize (0 :: u8))"
    by (simp add: kSendBufSize_def)
  have nz: "fst (BuildPacket (replicate kSendBufSize 0) 0x85 (replicate 249 0)) \<noteq> 0"
    using BuildPacket_frame(1)[OF l, of "0x85"] by simp
  show ?thesis
    using nz built_frame_bounds[of "replicate kSendBufSize 0" "0x85" "replicate 249 0"]
    by simp
qed

section \<open>The print job\<close>

lemma hi_byte_div: "hi_byte x = of_nat (unat x div 256)"
proof -
  have "unat (hi_byte x) = unat (of_nat (unat x div 256) :: u8)"
    by (simp add: hi_byte_def unsigned_ucast_eq unat_drop_bit_eq unat_of_nat take_bit_eq_mod
          drop_bit_eq_div unat_div_distrib)
  then show ?thesis by (simp only: word_unat_eq_iff)
qed

lemma and_255: "(x :: u16) AND 0xFF = take_bit 8 x"
proof -
  have "(0xFF :: u16) = mask 8" by (simp add: mask_eq_exp_minus_1)
  then show ?thesis by (simp only: take_bit_eq_mask)
qed

lemma lo_byte_mod: "lo_byte x = of_nat (unat x mod 256)"
proof -
  have "unat (lo_byte x) = unat (of_nat (unat x mod 256) :: u8)"
    unfolding lo_byte_def and_255
    by (simp add: unsigned_ucast_eq unsigned_take_bit_eq unat_of_nat take_bit_eq_mod
          unat_mod_distrib)
  then show ?thesis by (simp only: word_unat_eq_iff)
qed

lemma SendPacket_eq:
  "SendPacket ack p code data w =
     (if \<not> send_callback_set p then (ESP_ERR_INVALID_STATE, p)
      else if kSendBufSize < length data + 7 then (ESP_ERR_INVALID_SIZE, p)
      else if w \<and> \<not> ack (length (sent p))
      then (ESP_ERR_TIMEOUT, p\<lparr>sent := sent p @ [(frame_bytes (code_byte code) data, w)]\<rparr>)
      else (ESP_OK, p\<lparr>sent := sent p @ [(frame_bytes (code_byte code) data, w)]\<rparr>))"
proof (cases "kSendBufSize < length data + 7")
  case True
  then have "BuildPacket (replicate kSendBufSize 0) (code_byte code) data
             = (0, replicate kSendBufSize 0)"
    by (simp add: BuildPacket_def)
  then show ?thesis using True by (simp add: SendPacket_def)
next
  case False
  then have l: "length data + 7 \<le> length (replicate kSendBufSize (0 :: u8))" by simp
  obtain n buf' where b: "BuildPacket (replicate kSendBufSize 0) (code_byte code) data = (n, buf')"
    by (cases "BuildPacket (replicate kSendBufSize 0) (code_byte code) data")
  from BuildPacket_frame[OF l, of "code_byte code"] b
  have "n = length data + 7" "take n buf' = frame_bytes (code_byte code) data"
    by (simp_all add: built_frame_def)
  then show ?thesis using False b by (simp add: SendPacket_def Let_def)
qed

lemma run_steps_append:
  "run_steps ack p (xs @ ys) =
     (if fst (run_steps ack p xs) \<noteq> ESP_OK then run_steps ack p xs
      else run_steps ack (snd (run_steps ack p xs)) ys)"
  by (induction xs arbitrary: p) (simp_all add: Let_def)

lemma run_steps_sent:
  "\<exists>k \<le> length cs.
      sent (snd (run_steps ack p cs)) = sent p @ map cmd_frame (take k cs)
    \<and> (fst (run_steps ack p cs) = ESP_OK \<longrightarrow> k = length cs)"
proof (induction cs arbitrary: p)
  case Nil
  then show ?case by simp
next
  case (Cons c cs)
  let ?r = "SendPacket ack p (fst c) (snd c) True"
  show ?case
  proof (cases "fst ?r = ESP_OK")
    case True
    then have s: "sent (snd ?r) = sent p @ [cmd_frame c]"
      by (auto simp: SendPacket_eq cmd_frame_def split: if_splits)
    from Cons[of "snd ?r"] obtain k where k: "k \<le> length cs"
      "sent (snd (run_steps ack (snd ?r) cs)) = sent (snd ?r) @ map cmd_frame (take k cs)"
      "fst (run_steps ack (snd ?r) cs) = ESP_OK \<longrightarrow> k = length cs" by blast
    show ?thesis
      by (rule exI[of _ "Suc k"]) (use True k s in \<open>simp add: Let_def\<close>)
  next
    case False
    then have "sent (snd ?r) = sent p \<or> sent (snd ?r) = sent p @ [cmd_frame c]"
      by (auto simp: SendPacket_eq cmd_frame_def split: if_splits)
    then show ?thesis
    proof
      assume "sent (snd ?r) = sent p"
      then show ?thesis by (intro exI[of _ 0]) (use False in \<open>simp add: Let_def\<close>)
    next
      assume "sent (snd ?r) = sent p @ [cmd_frame c]"
      then show ?thesis by (intro exI[of _ 1]) (use False in \<open>simp add: Let_def\<close>)
    qed
  qed
qed

lemma run_steps_all_ok:
  assumes "send_callback_set p" and "\<forall>n. ack n" and "\<forall>c \<in> set cs. length (snd c) + 7 \<le> kSendBufSize"
  shows "run_steps ack p cs = (ESP_OK, p\<lparr>sent := sent p @ map cmd_frame cs\<rparr>)"
  using assms
proof (induction cs arbitrary: p)
  case Nil
  then show ?case by simp
next
  case (Cons c cs)
  let ?p1 = "p\<lparr>sent := sent p @ [cmd_frame c]\<rparr>"
  have s: "SendPacket ack p (fst c) (snd c) True = (ESP_OK, ?p1)"
    using Cons.prems by (simp add: SendPacket_eq cmd_frame_def)
  have "run_steps ack ?p1 cs = (ESP_OK, ?p1\<lparr>sent := sent ?p1 @ map cmd_frame cs\<rparr>)"
    using Cons.prems by (intro Cons.IH) simp_all
  then show ?case by (simp add: s Let_def)
qed

lemma Print_rows_run_steps:
  "y \<le> print_height \<Longrightarrow>
   Print_rows ack dec img print_height y p =
     run_steps ack p (map (bitmap_row_cmd dec img) [unat y..<unat print_height])"
proof (induction ack dec img print_height y p rule: Print_rows.induct)
  case (1 ack dec img print_height y p)
  show ?case
  proof (cases "y < print_height")
    case True
    have ylt: "unat y < unat print_height" using True by (simp add: word_less_nat_alt)
    moreover have "unat print_height < 2 ^ LENGTH(16)" by (rule unsigned_less)
    ultimately have "unat y + unat (1 :: u16) < 2 ^ LENGTH(16)" by simp
    then have "unat (y + 1) = unat y + unat (1 :: u16)" by (simp only: unat_add_lem)
    then have suc: "unat (y + 1) = Suc (unat y)" by simp
    have le: "y + 1 \<le> print_height" using True by (rule inc_le)
    let ?row = "map (dec img y) [0..<kRowBytes]"
    let ?r = "SendBitmapRow ack p y ?row kRowBytes"
    have cmd: "?r = SendPacket ack p (fst (bitmap_row_cmd dec img (unat y)))
                      (snd (bitmap_row_cmd dec img (unat y))) True"
      by (simp add: SendBitmapRow_def bitmap_row_cmd_def kRowBytes_def hi_byte_div lo_byte_mod)
    have up: "[unat y..<unat print_height] = unat y # [Suc (unat y)..<unat print_height]"
      using ylt by (simp add: upt_conv_Cons)
    have step: "Print_rows ack dec img print_height y p =
          (if fst ?r \<noteq> ESP_OK then ?r else Print_rows ack dec img print_height (y + 1) (snd ?r))"
      using True by (subst Print_rows.simps) (simp add: Let_def)
    have ih: "fst ?r = ESP_OK \<Longrightarrow> Print_rows ack dec img print_height (y + 1) (snd ?r) =
        run_steps ack (snd ?r) (map (bitmap_row_cmd dec img) [Suc (unat y)..<unat print_height])"
      using "1.IH"[OF True refl refl _ le] suc by simp
    show ?thesis
      unfolding step up using ih by (simp add: Let_def cmd[symmetric])
  next
    case False
    with 1(2) have "y = print_height" by simp
    then show ?thesis by (subst Print_rows.simps) simp
  qed
qed

lemma print_height_unat:
  "unat (if img_h img < kPaperHeightDots then img_h img else kPaperHeightDots) = capped_height img"
  by (auto simp: capped_height_def kPaperHeightDots_def word_less_nat_alt min_def)

lemma Print_run_steps:
  assumes "ready p"
  shows "Print ack dec p img = run_steps ack p (print_steps dec img)"
proof -
  let ?h = "if img_h img < kPaperHeightDots then img_h img else kPaperHeightDots"
  have rows: "\<And>q. Print_rows ack dec img ?h 0 q =
        run_steps ack q (map (bitmap_row_cmd dec img) [0..<capped_height img])"
    using Print_rows_run_steps[of 0 ?h ack dec img] by (simp add: print_height_unat)
  have dims: "[hi_byte ?h, lo_byte ?h, hi_byte kPaperWidthDots, lo_byte kPaperWidthDots,
               hi_byte 1, lo_byte 1]
        = [of_nat (capped_height img div 256), of_nat (capped_height img mod 256),
           of_nat (384 div 256), of_nat (384 mod 256), 0, 1]"
    unfolding hi_byte_div lo_byte_mod print_height_unat by (simp add: kPaperWidthDots_def)
  have sp: "[hi_byte 1, lo_byte 1, 0, 0, 0, 0, 0] = [0, 1, 0, 0, 0, 0, 0 :: u8]"
    by (simp add: hi_byte_div lo_byte_mod)
  show ?thesis
    using assms
    unfolding Print_def print_steps_def Let_def rows SetLabelDensity_def SetLabelType_def
      StartPrint_def StartPagePrint_def SetPageSize_def EndPagePrint_def EndPrint_def dims sp
    by (simp add: Let_def run_steps_append del: upt_Suc)
qed

lemma print_steps_sizes:
  "\<forall>c \<in> set (print_steps dec img). length (snd c) + 7 \<le> kSendBufSize"
  by (auto simp: print_steps_def bitmap_row_cmd_def kSendBufSize_def)

text \<open>
  Claim C6. For every image, \<open>Print\<close> on a ready printer issues exactly the commands
  of \<open>print_steps\<close> in their order: set density, set label type, start print, start
  page, page dimensions with min(image height, 240) rows and 384 columns, one bitmap-row
  command per row index from 0 up to the capped row count, end page, end print. What the
  send callback received is always a prefix of these frames, the whole list when
  \<open>Print\<close> returns \<open>ESP_OK\<close>; the first command whose send fails ends the job,
  \<open>Print\<close> returns the result of that send and nothing further is sent; with a send
  callback and no timeout every command is sent and the result is \<open>ESP_OK\<close>.
\<close>

theorem print_sequence:
  assumes "ready p"
  shows "Print ack dec p img = run_steps ack p (print_steps dec img)
       \<and> (\<exists>k \<le> length (print_steps dec img).
              sent (snd (Print ack dec p img))
                = sent p @ map cmd_frame (take k (print_steps dec img))
            \<and> (fst (Print ack dec p img) = ESP_OK \<longrightarrow> k = length (print_steps dec img)))
       \<and> (\<forall>xs c ys.
              print_steps dec img = xs @ c # ys
            \<and> fst (run_steps ack p xs) = ESP_OK
            \<and> fst (SendPacket ack (snd (run_steps ack p xs)) (fst c) (snd c) True) \<noteq> ESP_OK
            \<longrightarrow> Print ack dec p img
                  = SendPacket ack (snd (run_steps ack p xs)) (fst c) (snd c) True)
       \<and> (send_callback_set p \<and> (\<forall>n. ack n) \<longrightarrow>
              Print ack dec p img
                = (ESP_OK, p\<lparr>sent := sent p @ map cmd_frame (print_steps dec img)\<rparr>))"
proof -
  have eq: "Print ack dec p img = run_steps ack p (print_steps dec img)"
    using assms by (rule Print_run_steps)
  have a: "\<exists>k \<le> length (print_steps dec img).
              sent (snd (Print ack dec p img))
                = sent p @ map cmd_frame (take k (print_steps dec img))
            \<and> (fst (Print ack dec p img) = ESP_OK \<longrightarrow> k = length (print_steps dec img))"
    unfolding eq by (rule run_steps_sent)
  have b: "\<forall>xs c ys.
              print_steps dec img = xs @ c # ys
            \<and> fst (run_steps ack p xs) = ESP_OK
            \<and> fst (SendPacket ack (snd (run_steps ack p xs)) (fst c) (snd c) True) \<noteq> ESP_OK
            \<longrightarrow> Print ack dec p img
                  = SendPacket ack (snd (run_steps ack p xs)) (fst c) (snd c) True"
    unfolding eq by (auto simp: run_steps_append Let_def)
  have c: "send_callback_set p \<and> (\<forall>n. ack n) \<longrightarrow>
              Print ack dec p img
                = (ESP_OK, p\<lparr>sent := sent p @ map cmd_frame (print_steps dec img)\<rparr>)"
    unfolding eq using run_steps_all_ok[OF _ _ print_steps_sizes] by blast
  from eq a b c show ?thesis by blast
qed

lemma ready_printer_simps:
  "ready ready_printer" "send_callback_set ready_printer" "sent ready_printer = []"
  by (simp_all add: ready_printer_def HandleResponse_def SetSendCallback_def
        NiimbotPrinter_init_def Let_def)

lemma two_row_steps:
  "print_steps (\<lambda>i y k. 0) two_row_image =
     [(SET_LABEL_DENSITY, [3]), (SET_LABEL_TYPE, [1]), (START_PRINT, [0, 1, 0, 0, 0, 0, 0]),
      (START_PAGE_PRINT, [1]), (SET_DIMENSION, [0, 2, 1, 128, 0, 1]),
      (PRINT_BITMAP_ROW, [0, 0, 0, 0, 0, 1] @ map (\<lambda>k. 0) [0..<48]),
      (PRINT_BITMAP_ROW, [0, 1, 0, 0, 0, 1] @ map (\<lambda>k. 0) [0..<48]),
      (END_PAGE_PRINT, [1]), (END_PRINT, [1])]"
proof -
  have "capped_height two_row_image = 2"
    by (simp add: capped_height_def two_row_image_def)
  moreover have "[0..<2] = [0, Suc 0]" by (simp add: upt_rec)
  ultimately show ?thesis
    by (simp add: print_steps_def bitmap_row_cmd_def)
qed

theorem print_sequence_witness:
  "ready ready_printer \<and> send_callback_set ready_printer \<and> (\<forall>n. (\<lambda>n :: nat. True) n)
   \<and> fst (Print (\<lambda>n. True) (\<lambda>i y k. 0) ready_printer two_row_image) = ESP_OK
   \<and> length (sent (snd (Print (\<lambda>n. True) (\<lambda>i y k. 0) ready_printer two_row_image))) = 9
   \<and> fst (Print (\<lambda>n. n \<noteq> 2) (\<lambda>i y k. 0) ready_printer two_row_image) = ESP_ERR_TIMEOUT
   \<and> length (sent (snd (Print (\<lambda>n. n \<noteq> 2) (\<lambda>i y k. 0) ready_printer two_row_image))) = 3"
proof -
  note r = ready_printer_simps
  have ok: "Print (\<lambda>n. True) (\<lambda>i y k. 0) ready_printer two_row_image
        = (ESP_OK, ready_printer\<lparr>sent := sent ready_printer
             @ map cmd_frame (print_steps (\<lambda>i y k. 0) two_row_image)\<rparr>)"
    using print_sequence[of ready_printer "\<lambda>n. True" "\<lambda>i y k. 0" two_row_image] r by blast
  have "Print (\<lambda>n. n \<noteq> 2) (\<lambda>i y k. 0) ready_printer two_row_image
        = run_steps (\<lambda>n. n \<noteq> 2) ready_printer (print_steps (\<lambda>i y k. 0) two_row_image)"
    using print_sequence[of ready_printer "\<lambda>n. n \<noteq> 2" "\<lambda>i y k. 0" two_row_image] r by blast
  then have to: "fst (Print (\<lambda>n. n \<noteq> 2) (\<lambda>i y k. 0) ready_printer two_row_image) = ESP_ERR_TIMEOUT"
      "length (sent (snd (Print (\<lambda>n. n \<noteq> 2) (\<lambda>i y k. 0) ready_printer two_row_image))) = 3"
    by (simp_all add: two_row_steps SendPacket_eq r Let_def kSendBufSize_def)
  show ?thesis using ok to r by (simp add: two_row_steps)
qed

section \<open>Reassembly of received bytes\<close>

lemma find_start_Cons: "find_start (a # xs) (Suc i) = Suc (find_start xs i)"
proof (induction xs i rule: find_start.induct)
  case (1 buf start_idx)
  show ?case
  proof (cases "start_idx < length buf - 1")
    case True
    then have l: "Suc start_idx < length (a # buf) - 1" by simp
    show ?thesis
    proof (cases "buf ! start_idx = kPacketStart1 \<and> buf ! (start_idx + 1) = kPacketStart2")
      case m: True
      have "find_start buf start_idx = start_idx"
        using True m by (subst find_start.simps) simp
      moreover have "find_start (a # buf) (Suc start_idx) = Suc start_idx"
        using l m by (subst find_start.simps) simp
      ultimately show ?thesis by simp
    next
      case m: False
      have "find_start buf start_idx = find_start buf (start_idx + 1)"
        using True m by (subst find_start.simps) auto
      moreover have "find_start (a # buf) (Suc start_idx) = find_start (a # buf) (Suc (start_idx + 1))"
        using l m by (subst find_start.simps) auto
      ultimately show ?thesis using "1.IH"[OF True m] by simp
    qed
  next
    case False
    then have l: "\<not> Suc start_idx < length (a # buf) - 1" by simp
    have "find_start buf start_idx = start_idx"
      using False by (subst find_start.simps) simp
    moreover have "find_start (a # buf) (Suc start_idx) = Suc start_idx"
      using l by (subst find_start.simps) simp
    ultimately show ?thesis by simp
  qed
qed

lemma find_start_0:
  "find_start (a # b # xs) 0 =
     (if a = kPacketStart1 \<and> b = kPacketStart2 then 0 else Suc (find_start (b # xs) 0))"
  by (subst find_start.simps) (simp add: find_start_Cons)

lemma find_start_short: "length xs \<le> 1 \<Longrightarrow> find_start xs 0 = 0"
  by (subst find_start.simps) simp

lemma find_start_markers:
  "find_start (kPacketStart1 # kPacketStart2 # xs) 0 = 0"
  by (simp add: find_start_0)

lemma find_start_less: "xs \<noteq> [] \<Longrightarrow> find_start xs 0 < length xs"
proof (induction xs rule: has_start_pair.induct)
  case (3 a b xs)
  then show ?case by (simp add: find_start_0)
next
  case 1
  then show ?case by simp
next
  case (2 v)
  then show ?case by (simp add: find_start_short)
qed

lemma find_start_found:
  "Suc (find_start xs 0) < length xs \<Longrightarrow>
     xs ! find_start xs 0 = kPacketStart1 \<and> xs ! Suc (find_start xs 0) = kPacketStart2"
proof (induction xs rule: has_start_pair.induct)
  case (3 a b xs)
  then show ?case by (auto simp: find_start_0 split: if_splits)
next
  case 1
  then show ?case by simp
next
  case (2 v)
  then show ?case by simp
qed

lemma find_start_garbage:
  "\<not> has_start_pair xs \<Longrightarrow> xs \<noteq> [] \<Longrightarrow> last xs \<noteq> kPacketStart1 \<Longrightarrow>
   find_start (xs @ kPacketStart1 # kPacketStart2 # zs) 0 = length xs"
proof (induction xs rule: has_start_pair.induct)
  case (3 a b xs)
  then show ?case by (auto simp: find_start_0)
next
  case 1
  then show ?case by simp
next
  case (2 v)
  then show ?case by (simp add: find_start_0)
qed

lemma HandleResponse_frame [simp]:
  "packet_buf (HandleResponse p t d) = packet_buf p"
  "skipped (HandleResponse p t d) = skipped p"
  "handled (HandleResponse p t d) = handled p @ [(t, d)]"
  by (simp_all add: HandleResponse_def Let_def)

text \<open>
  When the accumulator starts with the two start markers, no garbage is removed and one
  pass of the loop body depends on the result of \<open>ParsePacket\<close> alone.
\<close>

lemma parse_step_markers:
  assumes "packet_buf p = kPacketStart1 # kPacketStart2 # xs" and "7 \<le> length (packet_buf p)"
  shows "parse_step p =
     (case ParsePacket (packet_buf p) of
        Inr (t, d) \<Rightarrow>
          (True, (HandleResponse p t d)\<lparr>packet_buf := drop (length d + 7) (packet_buf p)\<rparr>)
      | Inl e \<Rightarrow>
          if length (packet_buf p) < unat (packet_buf p ! 3) + 7 then (False, p)
          else (True, p\<lparr>packet_buf := drop 1 (packet_buf p), skipped := Suc (skipped p)\<rparr>))"
proof -
  have fs: "find_start (packet_buf p) 0 = 0" by (simp add: assms(1) find_start_markers)
  show ?thesis
    unfolding parse_step_def Let_def fs using assms(2)
    by (auto split: sum.splits prod.splits)
qed

lemma parse_loop_short: "length (packet_buf p) < 7 \<Longrightarrow> parse_loop p = p"
  by (subst parse_loop.simps) simp

lemma parse_loop_step:
  "7 \<le> length (packet_buf p) \<Longrightarrow>
   parse_loop p = (if fst (parse_step p) then parse_loop (snd (parse_step p)) else snd (parse_step p))"
  by (subst parse_loop.simps) (auto split: prod.splits)

lemma frame_bytes_markers:
  "frame_bytes t d @ rest = kPacketStart1 # kPacketStart2 # (t # of_nat (length d) # d @ [xor_fold t d, 0xAA, 0xAA] @ rest)"
  by (simp add: frame_bytes_def kPacketStart1_def kPacketStart2_def)

lemma length_frame_bytes [simp]: "length (frame_bytes t d) = length d + 7"
  by (simp add: frame_bytes_def)

text \<open>A whole frame at the front of the accumulator is handled and removed.\<close>

lemma parse_step_frame:
  assumes "packet_buf p = frame_bytes t d @ rest" and "length d \<le> 255"
  shows "parse_step p = (True, (HandleResponse p t d)\<lparr>packet_buf := rest\<rparr>)"
proof -
  have m: "packet_buf p = kPacketStart1 # kPacketStart2 #
            (t # of_nat (length d) # d @ [xor_fold t d, 0xAA, 0xAA] @ rest)"
    using assms(1) frame_bytes_markers by simp
  have l: "7 \<le> length (packet_buf p)" by (simp add: assms(1))
  have pp: "ParsePacket (packet_buf p) = Inr (t, d)"
    unfolding assms(1) using assms(2) by (rule ParsePacket_frame)
  show ?thesis
    unfolding parse_step_markers[OF m l] pp by (simp add: assms(1))
qed

text \<open>A proper prefix of a frame stays in the accumulator.\<close>

lemma parse_loop_prefix:
  assumes "packet_buf p = take k (frame_bytes t d)" and "k < length d + 7" and "length d \<le> 255"
  shows "parse_loop p = p"
proof (cases "k < 7")
  case True
  then show ?thesis using assms(1) by (intro parse_loop_short) simp
next
  case False
  then have k7: "7 \<le> k" by simp
  let ?F = "frame_bytes t d"
  have lp: "length (packet_buf p) = k" using assms(1,2) by simp
  obtain xs where m: "packet_buf p = kPacketStart1 # kPacketStart2 # xs"
  proof -
    have k2: "2 + (k - 2) = k" using k7 by simp
    have "take (2 + (k - 2)) ?F = take 2 ?F @ take (k - 2) (drop 2 ?F)"
      by (rule take_add)
    then have "take k ?F = take 2 ?F @ take (k - 2) (drop 2 ?F)"
      unfolding k2 .
    moreover have "take 2 ?F = [kPacketStart1, kPacketStart2]"
      by (simp add: frame_bytes_def kPacketStart1_def kPacketStart2_def)
    ultimately have "take k ?F = kPacketStart1 # kPacketStart2 # take (k - 2) (drop 2 ?F)"
      by simp
    then show ?thesis using that assms(1) by simp
  qed
  have n3: "packet_buf p ! 3 = of_nat (length d)"
    using k7 by (simp add: assms(1) frame_bytes_def)
  have un: "unat (of_nat (length d) :: u8) = length d" using assms(3) by (simp add: unat_of_nat)
  have pp: "ParsePacket (packet_buf p) = Inl Incomplete"
    unfolding ParsePacket_def Let_def lp n3 un using k7 assms(2) m by simp
  have "parse_step p = (False, p)"
    unfolding parse_step_markers[OF m, unfolded lp, OF k7] pp n3 un using assms(2) by simp
  then show ?thesis using k7 lp by (simp add: parse_loop_step)
qed

lemma append_received_fits:
  "length (packet_buf p) + length data \<le> kPacketBufSize \<Longrightarrow>
   append_received p data = Some (p\<lparr>packet_buf := packet_buf p @ data\<rparr>)"
  by (simp add: append_received_def)

lemma append_received_overflow:
  "kPacketBufSize < length (packet_buf p) + length data \<Longrightarrow> length data \<le> kPacketBufSize \<Longrightarrow>
   append_received p data = Some (p\<lparr>packet_buf := data\<rparr>)"
  by (simp add: append_received_def)

lemma append_received_overrun:
  "kPacketBufSize < length data \<Longrightarrow> append_received p data = None"
  by (simp add: append_received_def)

text \<open>
  Claim C8. For every valid frame (payload of 0 to 248 bytes) and every split point
  strictly inside its bytes, \<open>ProcessReceivedData\<close> on the first part, starting from
  an empty accumulator, handles no frame, and the following call on the remaining part
  handles exactly one frame, with the original type and payload, and leaves the
  accumulator empty.
\<close>

theorem split_frame_delivery:
  assumes "packet_buf p = []" and "length data \<le> 248" and "length data + 7 \<le> length buf"
    and "0 < k" and "k < length data + 7"
  shows "\<exists>p1 p2.
           ProcessReceivedData p (take k (built_frame buf type data)) = Some p1
         \<and> handled p1 = handled p
         \<and> ProcessReceivedData p1 (drop k (built_frame buf type data)) = Some p2
         \<and> handled p2 = handled p @ [(type, data)]
         \<and> packet_buf p2 = []"
proof -
  let ?F = "frame_bytes type data"
  have f: "built_frame buf type data = ?F" using assms(3) by (rule BuildPacket_frame(2))
  have d255: "length data \<le> 255" using assms(2) by simp
  let ?p1 = "p\<lparr>packet_buf := take k ?F\<rparr>"
  have a1: "append_received p (take k ?F) = Some ?p1"
    using assms(1,2,5) append_received_fits[of p "take k ?F"] by (simp add: kPacketBufSize_def)
  have l1: "parse_loop ?p1 = ?p1"
    by (rule parse_loop_prefix[of _ k type data]) (use assms(5) d255 in simp_all)
  have r1: "ProcessReceivedData p (take k ?F) = Some ?p1"
    by (simp add: ProcessReceivedData_def a1 l1)
  let ?q = "p\<lparr>packet_buf := ?F\<rparr>"
  have a2: "append_received ?p1 (drop k ?F) = Some ?q"
    using assms(2,5) append_received_fits[of ?p1 "drop k ?F"] by (simp add: kPacketBufSize_def)
  let ?p2 = "(HandleResponse ?q type data)\<lparr>packet_buf := []\<rparr>"
  have "parse_step ?q = (True, ?p2)"
    using parse_step_frame[of ?q type data "[]"] d255 by simp
  then have "parse_loop ?q = parse_loop ?p2" by (simp add: parse_loop_step)
  also have "\<dots> = ?p2" by (rule parse_loop_short) simp
  finally have r2: "ProcessReceivedData ?p1 (drop k ?F) = Some ?p2"
    by (simp add: ProcessReceivedData_def a2)
  show ?thesis
    unfolding f
    by (rule exI[of _ ?p1], rule exI[of _ ?p2]) (simp add: r1 r2)
qed

theorem split_frame_delivery_witness:
  "packet_buf NiimbotPrinter_init = [] \<and> length [7 :: u8] \<le> 248
   \<and> length [7 :: u8] + 7 \<le> length (replicate 8 (0 :: u8)) \<and> (0 :: nat) < 3 \<and> (3 :: nat) < length [7 :: u8] + 7
   \<and> (\<exists>p1 p2.
           ProcessReceivedData NiimbotPrinter_init (take 3 (built_frame (replicate 8 0) 0x14 [7])) = Some p1
         \<and> handled p1 = handled NiimbotPrinter_init
         \<and> ProcessReceivedData p1 (drop 3 (built_frame (replicate 8 0) 0x14 [7])) = Some p2
         \<and> handled p2 = [(0x14, [7])]
         \<and> packet_buf p2 = [])"
  using split_frame_delivery[of NiimbotPrinter_init "[7]" "replicate 8 0" 3 "0x14"]
  by (simp add: NiimbotPrinter_init_def)

lemma parse_step_measure:
  assumes "7 \<le> length (packet_buf p)"
  shows "skipped (snd (parse_step p)) + length (packet_buf (snd (parse_step p)))
           \<le> skipped p + length (packet_buf p)"
    and "skipped p \<le> skipped (snd (parse_step p))"
    and "fst (parse_step p) \<Longrightarrow> length (packet_buf (snd (parse_step p))) < length (packet_buf p)"
  using assms unfolding parse_step_def Let_def
  by (auto split: sum.splits prod.splits if_splits)

lemma parse_loop_bound:
  "skipped (parse_loop p) + length (packet_buf (parse_loop p)) \<le> skipped p + length (packet_buf p)
   \<and> skipped p \<le> skipped (parse_loop p)"
proof (induction p rule: parse_loop.induct)
  case (1 p)
  show ?case
  proof (cases "7 \<le> length (packet_buf p)")
    case True
    note m = parse_step_measure[OF True]
    show ?thesis
    proof (cases "fst (parse_step p)")
      case t: True
      then have "parse_step p = (True, snd (parse_step p))" by (cases "parse_step p") simp
      from "1.IH"[OF True this[symmetric] refl] m(1,2) show ?thesis
        using True t by (simp add: parse_loop_step)
    next
      case False
      then show ?thesis using True m(1,2) by (simp add: parse_loop_step)
    qed
  next
    case False
    then show ?thesis by (simp add: parse_loop_short)
  qed
qed

lemma parse_step_break_settled:
  assumes "7 \<le> length (packet_buf p)" and "\<not> fst (parse_step p)"
  shows "parse_loop (snd (parse_step p)) = snd (parse_step p)"
proof -
  let ?k = "find_start (packet_buf p) 0"
  let ?p1 = "if 0 < ?k then p\<lparr>packet_buf := drop ?k (packet_buf p)\<rparr> else p"
  have b1: "packet_buf ?p1 = drop ?k (packet_buf p)" by simp
  show ?thesis
  proof (cases "length (packet_buf ?p1) < 7")
    case True
    then have "parse_step p = (False, ?p1)" unfolding parse_step_def Let_def by simp
    then show ?thesis using True by (simp add: parse_loop_short)
  next
    case False
    then have l7: "7 \<le> length (packet_buf ?p1)" by simp
    then have "Suc ?k < length (packet_buf p)" unfolding b1 by simp
    from find_start_found[OF this]
    have "packet_buf p ! ?k = kPacketStart1" "packet_buf p ! Suc ?k = kPacketStart2" by simp_all
    moreover have "drop ?k (packet_buf p) =
        packet_buf p ! ?k # packet_buf p ! Suc ?k # drop (Suc (Suc ?k)) (packet_buf p)"
      using \<open>Suc ?k < length (packet_buf p)\<close>
      by (metis Cons_nth_drop_Suc Suc_lessD)
    ultimately have m: "packet_buf ?p1 =
        kPacketStart1 # kPacketStart2 # drop (Suc (Suc ?k)) (packet_buf p)"
      unfolding b1 by simp
    from assms(2) obtain e where e: "ParsePacket (packet_buf ?p1) = Inl e"
      and inc: "length (packet_buf ?p1) < unat (packet_buf ?p1 ! 3) + 7"
      and ps: "parse_step p = (False, ?p1)"
      using False unfolding parse_step_def Let_def
      by (auto split: sum.splits prod.splits if_splits)
    have "parse_step ?p1 = (False, ?p1)"
      unfolding parse_step_markers[OF m l7] e using inc by simp
    then have "parse_loop ?p1 = ?p1" using l7 by (simp add: parse_loop_step)
    then show ?thesis by (simp add: ps)
  qed
qed

lemma parse_loop_idem: "parse_loop (parse_loop p) = parse_loop p"
proof (induction p rule: parse_loop.induct)
  case (1 p)
  show ?case
  proof (cases "7 \<le> length (packet_buf p)")
    case True
    show ?thesis
    proof (cases "fst (parse_step p)")
      case t: True
      then have "parse_step p = (True, snd (parse_step p))" by (cases "parse_step p") simp
      from "1.IH"[OF True this[symmetric] refl] show ?thesis
        using True t by (simp add: parse_loop_step)
    next
      case False
      then show ?thesis
        using True parse_step_break_settled[OF True False] by (simp add: parse_loop_step)
    qed
  next
    case False
    then show ?thesis by (simp add: parse_loop_short)
  qed
qed

section \<open>Overflow of the accumulator\<close>

lemma overflow_example_buf:
  "map_option packet_buf
     (Option.bind
        (ProcessReceivedData NiimbotPrinter_init ([0x55, 0x55, 0, 0xFF] @ replicate 250 0))
        (\<lambda>p. ProcessReceivedData p (replicate 253 0 @ [0x55, 0x55, 0, 1, 7, 6])))
   = Some [0x55, 0x55, 0, 1, 7, 6]"
  by code_simp

lemma overflow_example_handled:
  "map_option handled
     (Option.bind
        (Option.bind
           (ProcessReceivedData NiimbotPrinter_init ([0x55, 0x55, 0, 0xFF] @ replicate 250 0))
           (\<lambda>p. ProcessReceivedData p (replicate 253 0 @ [0x55, 0x55, 0, 1, 7, 6])))
        (\<lambda>p. ProcessReceivedData p [0xAA, 0xAA]))
   = Some [(0, [7])]"
  by code_simp

text \<open>
  Claim C2 as stated fails. A first call leaves 254 bytes of an unfinished frame in the
  accumulator; a second call delivers 259 bytes, 513 in all, that hold no whole frame
  and end with the first six bytes of one. After it the accumulator holds these six
  bytes, not nothing, and when the two end markers arrive the frame is handled.
\<close>

theorem overflow_keeps_delivered_bytes:
  "kPacketBufSize < length ([0x55, 0x55, 0, 0xFF] @ replicate 250 (0 :: u8))
      + length (replicate 253 0 @ [0x55, 0x55, 0, 1, 7, 6 :: u8])
   \<and> map_option packet_buf
     (Option.bind
        (ProcessReceivedData NiimbotPrinter_init ([0x55, 0x55, 0, 0xFF] @ replicate 250 0))
        (\<lambda>p. ProcessReceivedData p (replicate 253 0 @ [0x55, 0x55, 0, 1, 7, 6])))
     = Some [0x55, 0x55, 0, 1, 7, 6]
   \<and> map_option handled
     (Option.bind
        (Option.bind
           (ProcessReceivedData NiimbotPrinter_init ([0x55, 0x55, 0, 0xFF] @ replicate 250 0))
           (\<lambda>p. ProcessReceivedData p (replicate 253 0 @ [0x55, 0x55, 0, 1, 7, 6])))
        (\<lambda>p. ProcessReceivedData p [0xAA, 0xAA]))
     = Some [(0, [7])]"
  using overflow_example_buf overflow_example_handled by (simp add: kPacketBufSize_def)

text \<open>
  Claim C2, amended. For every call of \<open>ProcessReceivedData\<close> that delivers at most
  512 bytes, the call returns, the accumulator holds at most 512 bytes afterwards, and a
  further parse pass without new bytes changes nothing and so handles no frame. When the
  accumulated length would exceed 512, the bytes accumulated before are discarded in full
  and the delivered bytes alone are stored and parsed: the call does what it would do on
  an empty accumulator, and what it leaves is at most as long as the delivered bytes.
\<close>

theorem overflow_restarts_accumulator:
  assumes "length data \<le> kPacketBufSize"
  shows "\<exists>p'. ProcessReceivedData p data = Some p'
          \<and> length (packet_buf p') \<le> kPacketBufSize
          \<and> parse_loop p' = p'
          \<and> (kPacketBufSize < length (packet_buf p) + length data \<longrightarrow>
                p' = parse_loop (p\<lparr>packet_buf := data\<rparr>)
              \<and> ProcessReceivedData p data = ProcessReceivedData (p\<lparr>packet_buf := []\<rparr>) data
              \<and> length (packet_buf p') \<le> length data)"
proof (cases "kPacketBufSize < length (packet_buf p) + length data")
  case True
  let ?q = "p\<lparr>packet_buf := data\<rparr>"
  have a: "append_received p data = Some ?q"
    using True assms by (rule append_received_overflow)
  have e: "append_received (p\<lparr>packet_buf := []\<rparr>) data = Some ?q"
    using assms append_received_fits[of "p\<lparr>packet_buf := []\<rparr>" data] by simp
  have "length (packet_buf (parse_loop ?q)) \<le> length data"
    using parse_loop_bound[of ?q] by simp
  then show ?thesis
    using True assms by (simp add: ProcessReceivedData_def a e parse_loop_idem)
next
  case False
  let ?q = "p\<lparr>packet_buf := packet_buf p @ data\<rparr>"
  have a: "append_received p data = Some ?q"
    using False by (intro append_received_fits) simp
  have "length (packet_buf (parse_loop ?q)) \<le> length (packet_buf p) + length data"
    using parse_loop_bound[of ?q] by simp
  then show ?thesis
    using False by (simp add: ProcessReceivedData_def a parse_loop_idem)
qed

lemma overflow_example_loop:
  "parse_loop (NiimbotPrinter_init\<lparr>packet_buf := replicate 253 0 @ [0x55, 0x55, 0, 1, 7, 6]\<rparr>)
   = NiimbotPrinter_init\<lparr>packet_buf := [0x55, 0x55, 0, 1, 7, 6]\<rparr>"
  by code_simp

theorem overflow_restarts_accumulator_witness:
  "length (replicate 253 0 @ [0x55, 0x55, 0, 1, 7, 6 :: u8]) \<le> kPacketBufSize
   \<and> kPacketBufSize
        < length (packet_buf (NiimbotPrinter_init\<lparr>packet_buf := [0x55, 0x55, 0, 0xFF] @ replicate 250 0\<rparr>))
          + length (replicate 253 0 @ [0x55, 0x55, 0, 1, 7, 6 :: u8])
   \<and> ProcessReceivedData
        (NiimbotPrinter_init\<lparr>packet_buf := [0x55, 0x55, 0, 0xFF] @ replicate 250 0\<rparr>)
        (replicate 253 0 @ [0x55, 0x55, 0, 1, 7, 6])
      = Some (NiimbotPrinter_init\<lparr>packet_buf := [0x55, 0x55, 0, 1, 7, 6]\<rparr>)"
  using overflow_restarts_accumulator[of "replicate 253 0 @ [0x55, 0x55, 0, 1, 7, 6]"
          "NiimbotPrinter_init\<lparr>packet_buf := [0x55, 0x55, 0, 0xFF] @ replicate 250 0\<rparr>"]
        overflow_example_loop
  by (auto simp: kPacketBufSize_def)

lemma corrupt_frame_bytes:
  "corrupt_checksum c (frame_bytes t d)
     = [0x55, 0x55, t, of_nat (length d)] @ d @ [c, 0xAA, 0xAA]"
  by (simp add: corrupt_checksum_def frame_bytes_def list_update_append)

lemma last_corrupt: "last (tl (corrupt_checksum c (frame_bytes t d))) = 0xAA"
  by (simp add: corrupt_frame_bytes)

section \<open>Resynchronisation after a bad checksum\<close>

text \<open>
  Claim C3 as stated fails. The frame for type 0x55 and payload 0xFF with its checksum
  replaced by 0, followed by the valid frame for type 0 with no payload: after the first
  byte is dropped the buffer starts with the two start markers again, now followed by a
  length byte of 255, so the loop waits for more bytes and the valid frame is not handled
  in this call.
\<close>

theorem resync_waits_on_false_start:
  "map_option handled
     (ProcessReceivedData NiimbotPrinter_init
        (corrupt_checksum 0 (built_frame (replicate 8 0) 0x55 [0xFF])
           @ built_frame (replicate 7 0) 0 []))
     = Some []
   \<and> map_option packet_buf
     (ProcessReceivedData NiimbotPrinter_init
        (corrupt_checksum 0 (built_frame (replicate 8 0) 0x55 [0xFF])
           @ built_frame (replicate 7 0) 0 []))
     = Some [0x55, 0x55, 1, 0xFF, 0, 0xAA, 0xAA, 0x55, 0x55, 0, 0, 0, 0xAA, 0xAA]"
proof -
  have c: "corrupt_checksum 0 (built_frame (replicate 8 0) 0x55 [0xFF])
             @ built_frame (replicate 7 0) 0 []
           = [0x55, 0x55, 0x55, 1, 0xFF, 0, 0xAA, 0xAA, 0x55, 0x55, 0, 0, 0, 0xAA, 0xAA]"
    by (simp add: BuildPacket_frame corrupt_frame_bytes) (simp add: frame_bytes_def xor_fold_def)
  have h: "map_option handled
     (ProcessReceivedData NiimbotPrinter_init
        [0x55, 0x55, 0x55, 1, 0xFF, 0, 0xAA, 0xAA, 0x55, 0x55, 0, 0, 0, 0xAA, 0xAA]) = Some []"
    by code_simp
  have b: "map_option packet_buf
     (ProcessReceivedData NiimbotPrinter_init
        [0x55, 0x55, 0x55, 1, 0xFF, 0, 0xAA, 0xAA, 0x55, 0x55, 0, 0, 0, 0xAA, 0xAA])
     = Some [0x55, 0x55, 1, 0xFF, 0, 0xAA, 0xAA, 0x55, 0x55, 0, 0, 0, 0xAA, 0xAA]"
    by code_simp
  show ?thesis unfolding c using h b by simp
qed

text \<open>
  Claim C3, amended. For every buffer made of a frame whose checksum byte was replaced by
  a wrong value, followed by a valid frame, one call of \<open>ProcessReceivedData\<close> on an
  empty accumulator returns after at most as many one-byte discards as the buffer has
  bytes. Its first pass finds the declared length present and the checksum wrong, drops
  exactly the first byte and goes round again. When the rest of the corrupt frame holds
  no two adjacent start markers, that is the only discard: the rest is removed as
  garbage, the valid frame is handled and the accumulator is left empty.
\<close>

theorem resync_after_bad_checksum:
  assumes "packet_buf p = []"
    and "length d1 \<le> 248" and "length d1 + 7 \<le> length buf1"
    and "length d2 \<le> 248" and "length d2 + 7 \<le> length buf2"
    and "c \<noteq> xor_fold t1 d1"
  shows "\<exists>p'. ProcessReceivedData p
                (corrupt_checksum c (built_frame buf1 t1 d1) @ built_frame buf2 t2 d2) = Some p'
          \<and> skipped p'
               \<le> skipped p
                   + length (corrupt_checksum c (built_frame buf1 t1 d1) @ built_frame buf2 t2 d2)
          \<and> parse_step
               (p\<lparr>packet_buf :=
                    corrupt_checksum c (built_frame buf1 t1 d1) @ built_frame buf2 t2 d2\<rparr>)
             = (True,
                p\<lparr>packet_buf :=
                     tl (corrupt_checksum c (built_frame buf1 t1 d1)) @ built_frame buf2 t2 d2,
                   skipped := Suc (skipped p)\<rparr>)
          \<and> (\<not> has_start_pair (tl (corrupt_checksum c (built_frame buf1 t1 d1))) \<longrightarrow>
                handled p' = handled p @ [(t2, d2)]
              \<and> packet_buf p' = []
              \<and> skipped p' = Suc (skipped p))"
proof -
  let ?C = "corrupt_checksum c (frame_bytes t1 d1)"
  let ?V = "frame_bytes t2 d2"
  have f1: "built_frame buf1 t1 d1 = frame_bytes t1 d1" using assms(3) by (rule BuildPacket_frame(2))
  have f2: "built_frame buf2 t2 d2 = ?V" using assms(5) by (rule BuildPacket_frame(2))
  have lc: "length ?C = length d1 + 7" by (simp add: corrupt_frame_bytes)
  have d1: "length d1 \<le> 255" and d2: "length d2 \<le> 255" using assms(2,4) by simp_all
  let ?q = "p\<lparr>packet_buf := ?C @ ?V\<rparr>"
  have a: "append_received p (?C @ ?V) = Some ?q"
    using append_received_fits[of p "?C @ ?V"] assms(1,2,4) lc by (simp add: kPacketBufSize_def)
  have r: "ProcessReceivedData p (?C @ ?V) = Some (parse_loop ?q)"
    by (simp add: ProcessReceivedData_def a)
  have sk: "skipped (parse_loop ?q) \<le> skipped p + length (?C @ ?V)"
    using parse_loop_bound[of ?q] by simp
  \<comment> \<open>first pass: the corrupt frame fails the checksum test, one byte is dropped\<close>
  have m: "packet_buf ?q = kPacketStart1 # kPacketStart2 #
             (t1 # of_nat (length d1) # d1 @ [c, 0xAA, 0xAA] @ ?V)"
    by (simp add: corrupt_frame_bytes kPacketStart1_def kPacketStart2_def)
  have l7: "7 \<le> length (packet_buf ?q)" by (simp add: lc)
  have pp: "ParsePacket (packet_buf ?q) = Inl ChecksumMismatch"
    using ParsePacket_layout[OF d1, of t1 c "0xAA" "0xAA" ?V] assms(6)
    by (simp add: corrupt_frame_bytes)
  have un: "unat (of_nat (length d1) :: u8) = length d1" using d1 by (simp add: unat_of_nat)
  have n3: "packet_buf ?q ! 3 = of_nat (length d1)" by (simp add: corrupt_frame_bytes)
  let ?q1 = "p\<lparr>packet_buf := tl ?C @ ?V, skipped := Suc (skipped p)\<rparr>"
  have tlc: "drop 1 (?C @ ?V) = tl ?C @ ?V" by (simp add: corrupt_frame_bytes)
  have s1: "parse_step ?q = (True, ?q1)"
    unfolding parse_step_markers[OF m l7] pp n3 un using tlc by (simp add: lc)
  \<comment> \<open>second pass, when the rest of the corrupt frame holds no start markers\<close>
  have cond: "handled (parse_loop ?q) = handled p @ [(t2, d2)]
              \<and> packet_buf (parse_loop ?q) = [] \<and> skipped (parse_loop ?q) = Suc (skipped p)"
    if np: "\<not> has_start_pair (tl ?C)"
  proof -
    have ne: "tl ?C \<noteq> []" by (simp add: corrupt_frame_bytes)
    have la: "last (tl ?C) \<noteq> kPacketStart1" by (simp add: last_corrupt kPacketStart1_def)
    obtain zs where v: "?V = kPacketStart1 # kPacketStart2 # zs"
      using frame_bytes_markers[of t2 d2 "[]"] by simp
    have fs: "find_start (tl ?C @ ?V) 0 = length (tl ?C)"
      unfolding v using np ne la by (rule find_start_garbage)
    have ltl: "length (tl ?C) = length d1 + 6" by (simp add: lc)
    let ?q2 = "?q1\<lparr>packet_buf := ?V\<rparr>"
    have pv: "ParsePacket ?V = Inr (t2, d2)" using ParsePacket_frame[OF d2, of t2 "[]"] by simp
    have fsq: "find_start (packet_buf ?q1) 0 = length d1 + 6" using fs ltl by simp
    have dq: "drop (length d1 + 6) (packet_buf ?q1) = ?V" using ltl by simp
    have lv: "\<not> length ?V < 7" by simp
    have s2: "parse_step ?q1 = (True, (HandleResponse ?q2 t2 d2)\<lparr>packet_buf := []\<rparr>)"
      unfolding parse_step_def Let_def fsq
      by (simp only: dq) (simp add: pv)
    have "parse_loop ?q = parse_loop ?q1" using l7 s1 by (simp add: parse_loop_step)
    also have "\<dots> = parse_loop ((HandleResponse ?q2 t2 d2)\<lparr>packet_buf := []\<rparr>)"
      using s2 ltl by (simp add: parse_loop_step)
    also have "\<dots> = (HandleResponse ?q2 t2 d2)\<lparr>packet_buf := []\<rparr>"
      by (rule parse_loop_short) simp
    finally show ?thesis by simp
  qed
  show ?thesis
    unfolding f1 f2
    by (rule exI[of _ "parse_loop ?q"]) (use r sk s1 cond in simp)
qed

theorem resync_after_bad_checksum_witness:
  "packet_buf NiimbotPrinter_init = []
   \<and> length [2 :: u8] \<le> 248 \<and> length [2 :: u8] + 7 \<le> length (replicate 8 (0 :: u8))
   \<and> length [7 :: u8] \<le> 248 \<and> length [7 :: u8] + 7 \<le> length (replicate 8 (0 :: u8))
   \<and> (0 :: u8) \<noteq> xor_fold 1 [2]
   \<and> \<not> has_start_pair (tl (corrupt_checksum 0 (built_frame (replicate 8 0) 1 [2])))
   \<and> (\<exists>p'. ProcessReceivedData NiimbotPrinter_init
               (corrupt_checksum 0 (built_frame (replicate 8 0) 1 [2])
                  @ built_frame (replicate 8 0) 0x14 [7]) = Some p'
           \<and> handled p' = [(0x14, [7])] \<and> packet_buf p' = [] \<and> skipped p' = 1)"
proof -
  have x: "(0 :: u8) \<noteq> xor_fold 1 [2]" by (simp add: xor_fold_def)
  have f: "built_frame (replicate 8 0) 1 [2] = frame_bytes 1 [2]"
    by (rule BuildPacket_frame(2)) simp
  have n: "\<not> has_start_pair (tl (corrupt_checksum 0 (built_frame (replicate 8 0) 1 [2])))"
    unfolding f by (simp add: corrupt_frame_bytes kPacketStart1_def kPacketStart2_def)
  show ?thesis
    using x n resync_after_bad_checksum[of NiimbotPrinter_init "[2]" "replicate 8 0" "[7]"
                "replicate 8 0" 0 1 "0x14"]
    by (auto simp: NiimbotPrinter_init_def)
qed

end
